theory Spec2Isabelle
  imports Complex_Main
begin

section \<open>Data model\<close>

text \<open>
  Scene objects are referred to by address, so that \<open>scenes[i]\<close>, \<open>endScene\<close> and
  \<open>currentScene\<close> may alias one object. A local variable holding a scene reference can
  also hold \<open>undefined\<close> (an out-of-range array read) or \<open>null\<close> (an unset \<open>endScene\<close>).
\<close>

type_synonym ref = nat

datatype scene_ref = Undefined | Null | Obj ref

text \<open>\<open>Game.Interval\<close>. The renderer it refers to is a hook (see below). An interval
  is held by value in its scene: intervals are not shared between scenes.\<close>

record game_interval =
  label :: string
  framecounter :: int
  complete :: bool

text \<open>\<open>Game.Scene\<close>: \<open>interval\<close> is an Interval or \<open>null\<close>, the default of the
  prototype. (A scene constructed without the argument, whose field is \<open>undefined\<close>, is
  not part of the model.)\<close>

record scene =
  playable :: bool
  interval :: "game_interval option"

text \<open>What a call of the engine can raise: the runtime's TypeError on a property access
  of \<open>undefined\<close> or \<open>null\<close>, or whatever a hook of the concrete game throws.\<close>

datatype exn = TypeError scene_ref | Thrown string

text \<open>
  The observable calls of one step, in call order. \<open>RequestAnimFrame d\<close> is the call
  \<open>requestAnimFrame(GameHandler.start, d)\<close>; the shim that defines \<open>requestAnimFrame\<close>
  hands \<open>d\<close> to the browser's function, or to \<open>setTimeout\<close>, as it is. The canvas and its 2d context
  are taken to exist.
\<close>

datatype event =
    OnInitScene ref
  | CtxSave
  | OnBeforeRenderScene ref
  | OnRenderGame
  | OnRenderScene ref
  | IntervalRenderer ref game_interval
  | CtxRestore
  | RequestAnimFrame int

text \<open>The \<open>GameHandler\<close> singleton (timing fields).\<close>

record game_handler =
  paused :: bool
  frameCount :: nat
  frameMultipler :: real
  frameStart :: int
  maxfps :: int

text \<open>
  The \<open>Game.Main\<close> instance together with the handler, the scene objects, the state of
  the concrete game (\<open>'g\<close>, what the overridable hooks read and write) and the log of calls.
\<close>

record 'g state =
  scenes :: "ref list"
  endScene :: "ref option"
  currentScene :: "ref option"
  sceneIndex :: int
  handler :: game_handler
  heap :: "ref \<Rightarrow> scene"
  game :: 'g
  trace :: "event list"

text \<open>
  The methods a concrete game overrides, as functions of the game state. In the base
  classes the two predicates are \<open>return false\<close> and the render hooks are empty; here
  they are arbitrary: the predicates read the game state, the render hooks may change it
  or throw. The interval renderer is the function stored in the Interval, called with the
  scene as \<open>this\<close> and the interval as argument; it is the one that advances
  \<open>framecounter\<close> and sets \<open>complete\<close>. Hooks do not touch the fields of the engine
  or of the handler. A hook that throws leaves the game state as it was at the call.
  \<open>onInitScene\<close> is the method of \<open>Game.Scene\<close> itself.
\<close>

record 'g hooks =
  isGameOver :: "'g \<Rightarrow> bool"
  isComplete :: "ref \<Rightarrow> 'g \<Rightarrow> bool"
  onRenderGame :: "'g \<Rightarrow> exn + 'g"
  onBeforeRenderScene :: "ref \<Rightarrow> 'g \<Rightarrow> exn + 'g"
  onRenderScene :: "ref \<Rightarrow> 'g \<Rightarrow> exn + 'g"
  intervalRenderer :: "ref \<Rightarrow> game_interval \<Rightarrow> 'g \<Rightarrow> exn + game_interval \<times> 'g"

section \<open>Numbers\<close>

text \<open>
  \<open>Date.now()\<close> is an integral number of milliseconds. In the frame step the other
  Numbers are taken as exact reals (rounding of IEEE doubles is part of the model of
  effect values only, further below). \<open>~~x\<close> is ToInt32: truncation
  towards zero, then reduction to the signed 32-bit range. The step divides by \<open>FPSMS\<close>
  and by a frame interval that is not zero, so no division by zero occurs in it.
\<close>

definition FPSMS :: real where
  "FPSMS = 1000 / 60"

definition js_trunc :: "real \<Rightarrow> int" where
  "js_trunc x = (if x < 0 then \<lceil>x\<rceil> else \<lfloor>x\<rfloor>)"

definition toInt32 :: "real \<Rightarrow> int" where
  "toInt32 x = (let m = js_trunc x mod 2 ^ 32 in if 2 ^ 31 \<le> m then m - 2 ^ 32 else m)"

section \<open>The frame step\<close>

text \<open>Sequencing of calls that may throw: the first exception ends the step, with the
  state as mutated so far.\<close>

fun andThen :: "(exn + 'a) \<times> 's \<Rightarrow> ('a \<Rightarrow> 's \<Rightarrow> (exn + 'b) \<times> 's) \<Rightarrow> (exn + 'b) \<times> 's" where
  "andThen (Inl e, s) f = (Inl e, s)"
| "andThen (Inr a, s) f = f a s"

text \<open>\<open>xs[i]\<close>: out of range reads give \<open>undefined\<close>.\<close>

definition scene_at :: "ref list \<Rightarrow> int \<Rightarrow> scene_ref" where
  "scene_at xs i = (if 0 \<le> i \<and> i < int (length xs) then Obj (xs ! nat i) else Undefined)"

definition field_ref :: "ref option \<Rightarrow> scene_ref" where
  "field_ref f = (case f of None \<Rightarrow> Null | Some r \<Rightarrow> Obj r)"

text \<open>\<open>Game.Interval.prototype.reset\<close>\<close>

definition reset :: "game_interval \<Rightarrow> game_interval" where
  "reset iv = iv\<lparr>framecounter := 0, complete := False\<rparr>"

text \<open>\<open>Game.Scene.prototype.onInitScene\<close>\<close>

definition onInitScene :: "scene \<Rightarrow> scene" where
  "onInitScene sc = (case interval sc of None \<Rightarrow> sc | Some iv \<Rightarrow> sc\<lparr>interval := Some (reset iv)\<rparr>)"

text \<open>\<open>currentScene.onInitScene()\<close> on a local that may be \<open>undefined\<close> or \<open>null\<close>.\<close>

definition callOnInitScene :: "scene_ref \<Rightarrow> 'g state \<Rightarrow> (exn + ref) \<times> 'g state" where
  "callOnInitScene c st = (case c of
       Undefined \<Rightarrow> (Inl (TypeError Undefined), st)
     | Null \<Rightarrow> (Inl (TypeError Null), st)
     | Obj r \<Rightarrow> (Inr r, st\<lparr>heap := (heap st)(r := onInitScene (heap st r)),
                           trace := trace st @ [OnInitScene r]\<rparr>))"

text \<open>\<open>currentScene.interval === null || currentScene.interval.complete\<close>\<close>

definition intervalDone :: "scene \<Rightarrow> bool" where
  "intervalDone sc = (case interval sc of None \<Rightarrow> True | Some iv \<Rightarrow> complete iv)"

text \<open>Lines 205-218 of \<open>frame\<close>: first frame, else game over, else the scene is kept.\<close>

definition resolveScene :: "'g hooks \<Rightarrow> 'g state \<Rightarrow> (exn + ref) \<times> 'g state" where
  "resolveScene h st = (case currentScene st of
       None \<Rightarrow> (let st1 = st\<lparr>sceneIndex := 0\<rparr>
                in callOnInitScene (scene_at (scenes st1) 0) st1)
     | Some r \<Rightarrow>
         if isGameOver h (game st)
         then (let st1 = st\<lparr>sceneIndex := - 1\<rparr>
               in callOnInitScene (field_ref (endScene st1)) st1)
         else (Inr r, st))"

text \<open>Lines 220-233 of \<open>frame\<close>: a separate \<open>if\<close>, evaluated on the scene resolved so far.\<close>

definition advanceScene :: "'g hooks \<Rightarrow> ref \<Rightarrow> 'g state \<Rightarrow> (exn + ref) \<times> 'g state" where
  "advanceScene h r st =
     (if intervalDone (heap st r) \<and> isComplete h r (game st)
      then (let st1 = st\<lparr>sceneIndex := sceneIndex st + 1\<rparr> in
            if sceneIndex st1 < int (length (scenes st1))
            then callOnInitScene (scene_at (scenes st1) (sceneIndex st1)) st1
            else (let st2 = st1\<lparr>sceneIndex := 0\<rparr>
                  in callOnInitScene (scene_at (scenes st2) 0) st2))
      else (Inr r, st))"

definition sceneResolution :: "'g hooks \<Rightarrow> 'g state \<Rightarrow> (exn + ref) \<times> 'g state" where
  "sceneResolution h st = andThen (resolveScene h st) (advanceScene h)"

text \<open>A call of a render hook of the game: logged, then run on the game state.\<close>

definition callHook :: "event \<Rightarrow> ('g \<Rightarrow> exn + 'g) \<Rightarrow> 'g state \<Rightarrow> (exn + unit) \<times> 'g state" where
  "callHook ev f st =
     (let st1 = st\<lparr>trace := trace st @ [ev]\<rparr> in
      case f (game st1) of
        Inl e \<Rightarrow> (Inl e, st1)
      | Inr g \<Rightarrow> (Inr (), st1\<lparr>game := g\<rparr>))"

text \<open>\<open>currentScene.interval.intervalRenderer.call(currentScene, currentScene.interval, ctx)\<close>\<close>

definition callIntervalRenderer :: "'g hooks \<Rightarrow> ref \<Rightarrow> 'g state \<Rightarrow> (exn + unit) \<times> 'g state" where
  "callIntervalRenderer h r st = (case interval (heap st r) of
       None \<Rightarrow> (Inl (TypeError Null), st)
     | Some iv \<Rightarrow>
         (let st1 = st\<lparr>trace := trace st @ [IntervalRenderer r iv]\<rparr> in
          case intervalRenderer h r iv (game st1) of
            Inl e \<Rightarrow> (Inl e, st1)
          | Inr (iv', g) \<Rightarrow>
              (Inr (), st1\<lparr>heap := (heap st1)(r := (heap st1 r)\<lparr>interval := Some iv'\<rparr>),
                           game := g\<rparr>)))"

text \<open>Lines 239-251 of \<open>frame\<close>: \<open>ctx.save()\<close>, one of the two render paths, \<open>ctx.restore()\<close>.
  There is no \<open>try\<close> around the render calls.\<close>

definition renderPass :: "'g hooks \<Rightarrow> ref \<Rightarrow> 'g state \<Rightarrow> (exn + unit) \<times> 'g state" where
  "renderPass h r st =
     (let st0 = st\<lparr>trace := trace st @ [CtxSave]\<rparr> in
      andThen
        (if intervalDone (heap st0 r)
         then andThen (callHook (OnBeforeRenderScene r) (onBeforeRenderScene h r) st0) (\<lambda>_ s1.
              andThen (callHook OnRenderGame (onRenderGame h) s1) (\<lambda>_ s2.
              callHook (OnRenderScene r) (onRenderScene h r) s2))
         else andThen (callHook OnRenderGame (onRenderGame h) st0) (\<lambda>_ s1.
              callIntervalRenderer h r s1))
        (\<lambda>_ s. (Inr (), s\<lparr>trace := trace s @ [CtxRestore]\<rparr>)))"

text \<open>Lines 254-262 of \<open>frame\<close>; \<open>now\<close> is the clock value read at the start of the step.\<close>

definition updateTiming :: "int \<Rightarrow> ref \<Rightarrow> 'g state \<Rightarrow> 'g state" where
  "updateTiming now r st =
     (let gh = handler st;
          gh1 = gh\<lparr>frameCount := frameCount gh + 1\<rparr>;
          d = now - frameStart gh1;
          frameInterval = (if d = 0 then 1 else d);
          gh2 = (if frameCount gh1 mod 16 = 0
                 then gh1\<lparr>maxfps := toInt32 (1000 / real_of_int frameInterval)\<rparr>
                 else gh1);
          gh3 = gh2\<lparr>frameMultipler := real_of_int frameInterval / FPSMS, frameStart := now\<rparr>
      in st\<lparr>currentScene := Some r, handler := gh3\<rparr>)"

text \<open>Lines 266-267 of \<open>frame\<close>; \<open>now2\<close> is the second clock value read.\<close>

definition frameOffset :: "int \<Rightarrow> int \<Rightarrow> int" where
  "frameOffset now now2 = toInt32 (FPSMS - real_of_int (now2 - now))"

definition scheduleNext :: "int \<Rightarrow> int \<Rightarrow> 'g state \<Rightarrow> 'g state" where
  "scheduleNext now now2 st =
     (if paused (handler st) then st
      else st\<lparr>trace := trace st @ [RequestAnimFrame (frameOffset now now2)]\<rparr>)"

text \<open>\<open>Game.Main.prototype.frame\<close>, given the two values \<open>Date.now()\<close> returns in it.\<close>

definition frame :: "'g hooks \<Rightarrow> int \<Rightarrow> int \<Rightarrow> 'g state \<Rightarrow> (exn + unit) \<times> 'g state" where
  "frame h now now2 st =
     andThen (sceneResolution h st) (\<lambda>r s.
     andThen (renderPass h r s) (\<lambda>_ s'.
       (Inr (), scheduleNext now now2 (updateTiming now r s'))))"

text \<open>The calls made by one step.\<close>

definition frame_events :: "'g hooks \<Rightarrow> int \<Rightarrow> int \<Rightarrow> 'g state \<Rightarrow> event list" where
  "frame_events h now now2 st = drop (length (trace st)) (trace (snd (frame h now now2 st)))"

text \<open>Consecutive steps, one pair of clock values each; an exception ends the run.\<close>

fun run :: "'g hooks \<Rightarrow> (int \<times> int) list \<Rightarrow> 'g state \<Rightarrow> (exn + unit) \<times> 'g state" where
  "run h [] st = (Inr (), st)"
| "run h (t # ts) st = (case frame h (fst t) (snd t) st of
       (Inl e, s) \<Rightarrow> (Inl e, s)
     | (Inr _, s) \<Rightarrow> run h ts s)"

text \<open>The calls of \<open>onInitScene\<close> among the events: the scene activations of a step.\<close>

definition is_init :: "event \<Rightarrow> bool" where
  "is_init ev = (case ev of OnInitScene q \<Rightarrow> True | _ \<Rightarrow> False)"

text \<open>A state from which the next step takes the completion branch of line 220: a scene
  is active, the game is not over, the scene's interval is null or complete and its
  \<open>isComplete()\<close> holds.\<close>

definition advancing :: "'g hooks \<Rightarrow> 'g state \<Rightarrow> bool" where
  "advancing h st = (case currentScene st of
       None \<Rightarrow> False
     | Some r \<Rightarrow> \<not> isGameOver h (game st) \<and> intervalDone (heap st r) \<and> isComplete h r (game st))"

section \<open>Effect actors\<close>

text \<open>
  The arithmetic of \<open>effectValue\<close> is that of IEEE 754 binary64, with rounding to
  nearest, ties to even. A finite double is the real number it denotes (zero is taken as
  unsigned); the other Numbers are the two infinities and NaN. The arguments of the
  operations below are doubles.
\<close>

datatype jsnum = Num real | PosInf | NegInf | NaN

definition pow2 :: "int \<Rightarrow> real" where
  "pow2 k = (if 0 \<le> k then 2 ^ nat k else 1 / 2 ^ nat (- k))"

text \<open>The binary exponent of \<open>a > 0\<close>: \<open>binexp n a 0\<close> is the \<open>e\<close> with
  \<open>2^e \<le> a < 2^(e+1)\<close>, looked for within \<open>n\<close> steps on either side of 0.\<close>

fun binexp :: "nat \<Rightarrow> real \<Rightarrow> int \<Rightarrow> int" where
  "binexp 0 a e = e"
| "binexp (Suc n) a e =
     (if a < 1 then binexp n (2 * a) (e - 1)
      else if 2 \<le> a then binexp n (a / 2) (e + 1)
      else e)"

text \<open>The nearest integer, the even one at a tie.\<close>

definition round_even :: "real \<Rightarrow> int" where
  "round_even m =
     (let f = \<lfloor>m\<rfloor>; d = m - real_of_int f
      in if d < 1 / 2 then f
         else if 1 / 2 < d then f + 1
         else if even f then f else f + 1)"

text \<open>
  The double nearest to a real: 53 significant bits, the spacing \<open>2^q\<close> of the doubles
  around \<open>x\<close> being \<open>2^(e - 52)\<close> and never below \<open>2^(-1074)\<close> (subnormal numbers); a
  result of \<open>2^1024\<close> or more is an infinity.
\<close>

definition round64 :: "real \<Rightarrow> jsnum" where
  "round64 x =
     (if x = 0 then Num 0
      else
        let a = \<bar>x\<bar>;
            q = max (binexp 1100 a 0 - 52) (- 1074);
            r = real_of_int (round_even (a / pow2 q)) * pow2 q
        in if 2 ^ 1024 \<le> r then (if 0 < x then PosInf else NegInf)
           else Num (if 0 < x then r else - r))"





fun js_gt :: "jsnum \<Rightarrow> real \<Rightarrow> bool" where
  "js_gt (Num a) b = (b < a)"
| "js_gt PosInf b = True"
| "js_gt NegInf b = False"
| "js_gt NaN b = False"

text \<open>\<open>Game.EffectActor\<close>: \<open>effectStart\<close> is the handler's \<open>frameStart\<close> at construction;
  \<open>lifespan\<close> is a finite double.\<close>

record effect_actor =
  lifespan :: real
  effectStart :: int

text \<open>\<open>GameHandler.frameStart - this.effectStart\<close>\<close>

definition elapsed :: "effect_actor \<Rightarrow> game_handler \<Rightarrow> jsnum" where
  "elapsed a gh = round64 (real_of_int (frameStart gh - effectStart a))"

definition expired :: "effect_actor \<Rightarrow> game_handler \<Rightarrow> bool" where
  "expired a gh = js_gt (elapsed a gh) (lifespan a)"


section \<open>Example games\<close>

text \<open>
  Concrete hooks and states on which the statements below are evaluated. The game state
  counts the normal renders; the interval renderer counts its calls in \<open>framecounter\<close>
  and completes the interval at its second call.
\<close>

definition demo_hooks :: "nat hooks" where
  "demo_hooks = \<lparr>
     isGameOver = (\<lambda>g. False),
     isComplete = (\<lambda>r g. False),
     onRenderGame = (\<lambda>g. Inr g),
     onBeforeRenderScene = (\<lambda>r g. Inr g),
     onRenderScene = (\<lambda>r g. Inr (g + 1)),
     intervalRenderer = (\<lambda>r iv g.
        Inr (iv\<lparr>framecounter := framecounter iv + 1, complete := (2 \<le> framecounter iv + 1)\<rparr>, g)) \<rparr>"

definition complete_hooks :: "nat hooks" where
  "complete_hooks = demo_hooks\<lparr>isComplete := (\<lambda>r g. True)\<rparr>"

definition over_hooks :: "nat hooks" where
  "over_hooks = demo_hooks\<lparr>isGameOver := (\<lambda>g. True)\<rparr>"

definition over_complete_hooks :: "nat hooks" where
  "over_complete_hooks = complete_hooks\<lparr>isGameOver := (\<lambda>g. True)\<rparr>"

definition throwing_hooks :: "nat hooks" where
  "throwing_hooks = demo_hooks\<lparr>onRenderScene := (\<lambda>r g. Inl (Thrown ''render failed''))\<rparr>"

text \<open>A game that stays over, with an interval renderer that completes at once.\<close>

definition instant_hooks :: "nat hooks" where
  "instant_hooks = over_hooks\<lparr>intervalRenderer := (\<lambda>r iv g. Inr (iv\<lparr>complete := True\<rparr>, g))\<rparr>"

definition plain_scene :: scene where
  "plain_scene = \<lparr>playable = True, interval = None\<rparr>"

definition banner :: game_interval where
  "banner = \<lparr>label = ''banner'', framecounter = 0, complete = False\<rparr>"

definition banner_scene :: scene where
  "banner_scene = \<lparr>playable = False, interval = Some banner\<rparr>"

definition idle_handler :: game_handler where
  "idle_handler = \<lparr>paused = False, frameCount = 0, frameMultipler = 1, frameStart = 100, maxfps = 0\<rparr>"

text \<open>Three scenes, the second with an interval, and an end scene with an interval;
  no frame has run yet.\<close>

definition boot :: "nat state" where
  "boot = \<lparr>scenes = [0, 1, 2], endScene = Some 3, currentScene = None, sceneIndex = - 1,
           handler = idle_handler,
           heap = (\<lambda>r. if r = 1 \<or> r = 3 then banner_scene else plain_scene),
           game = 0, trace = []\<rparr>"

text \<open>The same game with the first scene active.\<close>

definition playing :: "nat state" where
  "playing = boot\<lparr>currentScene := Some 0, sceneIndex := 0\<rparr>"

text \<open>Three scenes without intervals.\<close>

definition plain_loop :: "nat state" where
  "plain_loop = playing\<lparr>heap := (\<lambda>r. plain_scene)\<rparr>"

text \<open>An end scene without interval.\<close>

definition plain_end :: "nat state" where
  "plain_end = playing\<lparr>endScene := Some 2\<rparr>"

text \<open>A game started without scenes, and one without end scene.\<close>

definition no_scenes :: "nat state" where
  "no_scenes = boot\<lparr>scenes := []\<rparr>"

definition no_end :: "nat state" where
  "no_end = playing\<lparr>endScene := None\<rparr>"

definition fade :: effect_actor where
  "fade = \<lparr>lifespan = 1000, effectStart = 100\<rparr>"

text \<open>An effect of 11 ms started at the same time, and one with a zero lifespan.\<close>

definition spark :: effect_actor where
  "spark = \<lparr>lifespan = 11, effectStart = 100\<rparr>"

definition stuck :: effect_actor where
  "stuck = \<lparr>lifespan = 0, effectStart = 100\<rparr>"

section \<open>Auxiliary facts about the step\<close>

subsection \<open>Sequencing\<close>

lemma andThen_Inr_iff:
  "andThen m f = (Inr b, s') \<longleftrightarrow> (\<exists>a s. m = (Inr a, s) \<and> f a s = (Inr b, s'))"
  by (cases m; cases "fst m") auto

lemma andThen_Inl_iff:
  "andThen m f = (Inl e, s') \<longleftrightarrow> m = (Inl e, s') \<or> (\<exists>a s. m = (Inr a, s) \<and> f a s = (Inl e, s'))"
  by (cases m; cases "fst m") auto

lemma andThen_cases:
  obtains (abort) e s where "m = (Inl e, s)" "andThen m f = (Inl e, s)"
        | (cont) a s where "m = (Inr a, s)" "andThen m f = f a s"
  by (cases m; cases "fst m") auto

subsection \<open>Single calls\<close>

lemma callOnInitScene_Inr:
  "callOnInitScene c st = (Inr r, s) \<longleftrightarrow>
     c = Obj r \<and> s = st\<lparr>heap := (heap st)(r := onInitScene (heap st r)), trace := trace st @ [OnInitScene r]\<rparr>"
  by (cases c) (auto simp: callOnInitScene_def)

lemma callOnInitScene_Inl:
  "callOnInitScene c st = (Inl e, s) \<longleftrightarrow> (c = Undefined \<or> c = Null) \<and> e = TypeError c \<and> s = st"
  by (cases c) (auto simp: callOnInitScene_def)

lemma callHook_Inr:
  "callHook ev f st = (Inr u, s) \<longleftrightarrow> (\<exists>g. f (game st) = Inr g \<and> s = st\<lparr>trace := trace st @ [ev], game := g\<rparr>)"
  by (auto simp: callHook_def Let_def split: sum.splits)

lemma callHook_Inl:
  "callHook ev f st = (Inl e, s) \<longleftrightarrow> f (game st) = Inl e \<and> s = st\<lparr>trace := trace st @ [ev]\<rparr>"
  by (auto simp: callHook_def Let_def split: sum.splits)

lemma callIntervalRenderer_Inr:
  "callIntervalRenderer h r st = (Inr u, s) \<longleftrightarrow>
     (\<exists>iv iv' g. interval (heap st r) = Some iv \<and> intervalRenderer h r iv (game st) = Inr (iv', g) \<and>
        s = st\<lparr>trace := trace st @ [IntervalRenderer r iv],
                heap := (heap st)(r := (heap st r)\<lparr>interval := Some iv'\<rparr>), game := g\<rparr>)"
  by (auto simp: callIntervalRenderer_def Let_def split: sum.splits option.splits)

lemma callIntervalRenderer_Inl:
  "callIntervalRenderer h r st = (Inl e, s) \<longleftrightarrow>
     (interval (heap st r) = None \<and> e = TypeError Null \<and> s = st) \<or>
     (\<exists>iv. interval (heap st r) = Some iv \<and> intervalRenderer h r iv (game st) = Inl e \<and>
        s = st\<lparr>trace := trace st @ [IntervalRenderer r iv]\<rparr>)"
  by (auto simp: callIntervalRenderer_def Let_def split: sum.splits option.splits)

lemma intervalDone_onInitScene: "intervalDone (onInitScene sc) \<longleftrightarrow> interval sc = None"
  by (auto simp: intervalDone_def onInitScene_def reset_def split: option.splits)

lemma interval_onInitScene: "interval (onInitScene sc) = map_option reset (interval sc)"
  by (auto simp: onInitScene_def split: option.splits)

subsection \<open>What each part of the step leaves unchanged\<close>

lemma resolveScene_fields:
  "resolveScene h st = (res, s) \<Longrightarrow>
     scenes s = scenes st \<and> endScene s = endScene st \<and> currentScene s = currentScene st
     \<and> handler s = handler st \<and> game s = game st"
  by (cases res) (auto simp: resolveScene_def Let_def callOnInitScene_Inr callOnInitScene_Inl split: option.splits if_splits)

lemma advanceScene_fields:
  "advanceScene h r st = (res, s) \<Longrightarrow>
     scenes s = scenes st \<and> endScene s = endScene st \<and> currentScene s = currentScene st
     \<and> handler s = handler st \<and> game s = game st"
  by (cases res) (auto simp: advanceScene_def Let_def callOnInitScene_Inr callOnInitScene_Inl split: option.splits if_splits)

lemma sceneResolution_fields:
  "sceneResolution h st = (res, s) \<Longrightarrow>
     scenes s = scenes st \<and> endScene s = endScene st \<and> currentScene s = currentScene st
     \<and> handler s = handler st \<and> game s = game st"
  unfolding sceneResolution_def
  by (cases "resolveScene h st" "advanceScene h" rule: andThen_cases)
     (auto dest!: resolveScene_fields advanceScene_fields)

lemma callHook_fields:
  "callHook ev f st = (res, s) \<Longrightarrow>
     scenes s = scenes st \<and> endScene s = endScene st \<and> currentScene s = currentScene st
     \<and> sceneIndex s = sceneIndex st \<and> handler s = handler st \<and> heap s = heap st"
  by (auto simp: callHook_def Let_def split: sum.splits)

lemma callIntervalRenderer_fields:
  "callIntervalRenderer h r st = (res, s) \<Longrightarrow>
     scenes s = scenes st \<and> endScene s = endScene st \<and> currentScene s = currentScene st
     \<and> sceneIndex s = sceneIndex st \<and> handler s = handler st"
  by (auto simp: callIntervalRenderer_def Let_def split: sum.splits option.splits)

lemma renderPass_fields:
  "renderPass h r st = (res, s) \<Longrightarrow>
     scenes s = scenes st \<and> endScene s = endScene st \<and> currentScene s = currentScene st
     \<and> sceneIndex s = sceneIndex st \<and> handler s = handler st"
  apply (cases res)
  apply (auto simp: renderPass_def Let_def andThen_Inr_iff andThen_Inl_iff split: if_splits dest!: callHook_fields callIntervalRenderer_fields)
  done

lemma finish_fields:
  "heap (scheduleNext now now2 (updateTiming now r s)) = heap s
   \<and> game (scheduleNext now now2 (updateTiming now r s)) = game s"
  by (simp add: scheduleNext_def updateTiming_def Let_def)

subsection \<open>Scene resolution\<close>

lemma resolveScene_first:
  assumes "currentScene st = None" "scene_at (scenes st) 0 = Obj r0"
  shows "resolveScene h st =
     (Inr r0, st\<lparr>sceneIndex := 0, heap := (heap st)(r0 := onInitScene (heap st r0)),
                trace := trace st @ [OnInitScene r0]\<rparr>)"
  using assms by (simp add: resolveScene_def Let_def callOnInitScene_def)

lemma resolveScene_first_Inr:
  assumes "currentScene st = None" "resolveScene h st = (Inr r, s)"
  shows "scene_at (scenes st) 0 = Obj r"
  using assms by (auto simp: resolveScene_def Let_def callOnInitScene_Inr)

lemma resolveScene_keep:
  assumes "currentScene st = Some r" "\<not> isGameOver h (game st)"
  shows "resolveScene h st = (Inr r, st)"
  using assms by (simp add: resolveScene_def)

lemma resolveScene_game_over:
  assumes "currentScene st = Some r" "isGameOver h (game st)" "endScene st = Some e"
  shows "resolveScene h st =
     (Inr e, st\<lparr>sceneIndex := - 1, heap := (heap st)(e := onInitScene (heap st e)),
               trace := trace st @ [OnInitScene e]\<rparr>)"
  using assms by (simp add: resolveScene_def Let_def field_ref_def callOnInitScene_def)

lemma advanceScene_stay:
  assumes "\<not> (intervalDone (heap st r) \<and> isComplete h r (game st))"
  shows "advanceScene h r st = (Inr r, st)"
  using assms by (auto simp: advanceScene_def)

lemma advanceScene_go:
  assumes "intervalDone (heap st r)" "isComplete h r (game st)"
    and "advanceScene h r st = (Inr q, s)"
  shows "sceneIndex s = (if sceneIndex st + 1 < int (length (scenes st)) then sceneIndex st + 1 else 0)
       \<and> scene_at (scenes st) (sceneIndex s) = Obj q
       \<and> trace s = trace st @ [OnInitScene q]"
  using assms by (auto simp: advanceScene_def Let_def callOnInitScene_Inr split: if_splits)

lemma sceneResolution_game_over_stay:
  assumes "currentScene st = Some r" "isGameOver h (game st)" "endScene st = Some e"
    and "\<not> (interval (heap st e) = None \<and> isComplete h e (game st))"
  shows "sceneResolution h st =
     (Inr e, st\<lparr>sceneIndex := - 1, heap := (heap st)(e := onInitScene (heap st e)),
               trace := trace st @ [OnInitScene e]\<rparr>)"
  unfolding sceneResolution_def resolveScene_game_over[OF assms(1-3)]
  using assms(4) by (simp add: advanceScene_stay intervalDone_onInitScene)

lemma resolveScene_trace:
  "resolveScene h st = (res, s) \<Longrightarrow>
     trace s = trace st \<or> (\<exists>q. trace s = trace st @ [OnInitScene q])"
  by (cases res) (auto simp: resolveScene_def Let_def callOnInitScene_Inr callOnInitScene_Inl split: option.splits if_splits)

lemma advanceScene_trace:
  "advanceScene h r st = (res, s) \<Longrightarrow>
     trace s = trace st \<or> (\<exists>q. trace s = trace st @ [OnInitScene q])"
  by (cases res) (auto simp: advanceScene_def Let_def callOnInitScene_Inr callOnInitScene_Inl split: option.splits if_splits)

lemma sceneResolution_trace:
  assumes "sceneResolution h st = (res, s)"
  shows "\<exists>evs. trace s = trace st @ evs \<and> length evs \<le> 2 \<and> (\<forall>x \<in> set evs. \<exists>q. x = OnInitScene q)"
  using assms unfolding sceneResolution_def
proof (cases "resolveScene h st" "advanceScene h" rule: andThen_cases)
  case (abort e s0)
  with assms resolveScene_trace[of h st "Inl e" s0] show ?thesis
    by (auto simp: sceneResolution_def)
next
  case (cont a s0)
  with assms have adv: "advanceScene h a s0 = (res, s)" by (simp add: sceneResolution_def)
  from resolveScene_trace[OF cont(1)] advanceScene_trace[OF adv] show ?thesis
    by auto
qed

lemma sceneResolution_inits:
  assumes "sceneResolution h st = (res, s)"
  shows "\<forall>x \<in> set (drop (length (trace st)) (trace s)). \<exists>q. x = OnInitScene q"
  using sceneResolution_trace[OF assms] by auto

subsection \<open>The render pass\<close>

lemma renderPass_normal_Inr:
  assumes "intervalDone (heap st r)" "renderPass h r st = (Inr u, s)"
  shows "trace s = trace st @ [CtxSave, OnBeforeRenderScene r, OnRenderGame, OnRenderScene r, CtxRestore]"
  using assms by (auto simp: renderPass_def Let_def andThen_Inr_iff callHook_Inr)

lemma renderPass_interval_Inr:
  assumes "interval (heap st r) = Some iv" "\<not> complete iv" "renderPass h r st = (Inr u, s)"
  shows "trace s = trace st @ [CtxSave, OnRenderGame, IntervalRenderer r iv, CtxRestore]"
  using assms by (auto simp: renderPass_def Let_def intervalDone_def andThen_Inr_iff callHook_Inr callIntervalRenderer_Inr)

lemma renderPass_normal_Inl:
  assumes "intervalDone (heap st r)" "renderPass h r st = (Inl e, s)"
  shows "\<exists>evs. trace s = trace st @ CtxSave # evs \<and>
           set evs \<subseteq> {OnBeforeRenderScene r, OnRenderGame, OnRenderScene r}"
  using assms by (auto simp: renderPass_def Let_def andThen_Inr_iff andThen_Inl_iff callHook_Inr callHook_Inl)

lemma renderPass_interval_Inl:
  assumes "interval (heap st r) = Some iv" "\<not> complete iv" "renderPass h r st = (Inl e, s)"
  shows "\<exists>evs. trace s = trace st @ CtxSave # evs \<and>
           set evs \<subseteq> {OnRenderGame, IntervalRenderer r iv}"
  using assms by (auto simp: renderPass_def Let_def intervalDone_def andThen_Inr_iff andThen_Inl_iff callHook_Inr callHook_Inl callIntervalRenderer_Inl)

lemma renderPass_Inr_trace:
  assumes "renderPass h r st = (Inr u, s)"
  shows "trace s = trace st @
           (if intervalDone (heap st r)
            then [CtxSave, OnBeforeRenderScene r, OnRenderGame, OnRenderScene r, CtxRestore]
            else [CtxSave, OnRenderGame, IntervalRenderer r (the (interval (heap st r))), CtxRestore])"
proof (cases "intervalDone (heap st r)")
  case True
  then show ?thesis using renderPass_normal_Inr[OF True assms] by simp
next
  case False
  then obtain iv where "interval (heap st r) = Some iv" "\<not> complete iv"
    by (auto simp: intervalDone_def split: option.splits)
  then show ?thesis using renderPass_interval_Inr[OF _ _ assms] False by simp
qed

lemma renderPass_Inl_trace:
  assumes "renderPass h r st = (Inl e, s)"
  shows "\<exists>evs. trace s = trace st @ CtxSave # evs \<and>
           set evs \<subseteq> (if intervalDone (heap st r)
                      then {OnBeforeRenderScene r, OnRenderGame, OnRenderScene r}
                      else {OnRenderGame, IntervalRenderer r (the (interval (heap st r)))})"
proof (cases "intervalDone (heap st r)")
  case True
  then show ?thesis using renderPass_normal_Inl[OF True assms] by simp
next
  case False
  then obtain iv where "interval (heap st r) = Some iv" "\<not> complete iv"
    by (auto simp: intervalDone_def split: option.splits)
  then show ?thesis using renderPass_interval_Inl[OF _ _ assms] False by simp
qed

lemma renderPass_interval_heap:
  assumes "interval (heap st r) = Some iv" "\<not> complete iv" "renderPass h r st = (Inr u, s)"
  shows "\<exists>iv'. heap s = (heap st)(r := (heap st r)\<lparr>interval := Some iv'\<rparr>)"
  using assms by (auto simp: renderPass_def Let_def intervalDone_def andThen_Inr_iff callHook_Inr callIntervalRenderer_Inr)

subsection \<open>The whole step\<close>

lemma frame_Inr:
  "frame h now now2 st = (Inr u, st') \<longleftrightarrow>
     (\<exists>r s1 s2. sceneResolution h st = (Inr r, s1) \<and> renderPass h r s1 = (Inr (), s2)
        \<and> st' = scheduleNext now now2 (updateTiming now r s2))"
  by (auto simp: frame_def andThen_Inr_iff)

lemma frame_Inl:
  "frame h now now2 st = (Inl e, st') \<longleftrightarrow>
     sceneResolution h st = (Inl e, st') \<or>
     (\<exists>r s1. sceneResolution h st = (Inr r, s1) \<and> renderPass h r s1 = (Inl e, st'))"
  by (auto simp: frame_def andThen_Inl_iff)

lemma finish_trace:
  "trace (scheduleNext now now2 (updateTiming now r s)) =
     trace s @ (if paused (handler s) then [] else [RequestAnimFrame (frameOffset now now2)])"
  by (simp add: scheduleNext_def updateTiming_def Let_def)

lemma frame_completed_events:
  assumes "sceneResolution h st = (Inr r, s1)" "renderPass h r s1 = (Inr (), s2)"
  shows "frame_events h now now2 st =
           drop (length (trace st)) (trace s1) @ drop (length (trace s1)) (trace s2)
           @ (if paused (handler st) then [] else [RequestAnimFrame (frameOffset now now2)])"
proof -
  obtain ia where ia: "trace s1 = trace st @ ia"
    using sceneResolution_trace[OF assms(1)] by blast
  obtain ib where ib: "trace s2 = trace s1 @ ib"
    using renderPass_Inr_trace[OF assms(2)] by blast
  have hd: "handler s2 = handler st"
    using sceneResolution_fields[OF assms(1)] renderPass_fields[OF assms(2)] by simp
  have "frame h now now2 st = (Inr (), scheduleNext now now2 (updateTiming now r s2))"
    using assms by (simp add: frame_Inr)
  then show ?thesis
    by (simp add: frame_events_def finish_trace ia ib hd)
qed

lemma frame_events_split:
  assumes "sceneResolution h st = (Inr r, s1)" "renderPass h r s1 = (res, s2)"
  shows "frame_events h now now2 st =
           drop (length (trace st)) (trace s1) @ drop (length (trace s1)) (trace s2)
           @ (case res of Inl e \<Rightarrow> []
              | Inr u \<Rightarrow> if paused (handler st) then [] else [RequestAnimFrame (frameOffset now now2)])"
proof (cases res)
  case (Inr u)
  with assms frame_completed_events[of h st r s1 s2 now now2] show ?thesis by simp
next
  case (Inl e)
  obtain ia where ia: "trace s1 = trace st @ ia"
    using sceneResolution_trace[OF assms(1)] by blast
  obtain ib where ib: "trace s2 = trace s1 @ ib"
    using renderPass_Inl_trace[of h r s1 e s2] assms(2) Inl by auto
  have "frame h now now2 st = (Inl e, s2)"
    using assms Inl by (simp add: frame_Inl)
  then show ?thesis
    by (simp add: frame_events_def ia ib Inl)
qed

lemma frame_events_first:
  assumes "resolveScene h st = (Inr r, s)" "trace s = trace st @ [ev]"
  shows "\<exists>evs. frame_events h now now2 st = ev # evs"
proof -
  obtain res1 s1 where adv: "advanceScene h r s = (res1, s1)"
    by (cases "advanceScene h r s") auto
  then have sr: "sceneResolution h st = (res1, s1)"
    using assms(1) by (simp add: sceneResolution_def)
  obtain ia where ia: "trace s1 = trace s @ ia"
    using advanceScene_trace[OF adv] by auto
  show ?thesis
  proof (cases res1)
    case (Inl e)
    then have "frame h now now2 st = (Inl e, s1)"
      using sr by (simp add: frame_Inl)
    then show ?thesis
      by (simp add: frame_events_def ia assms(2))
  next
    case (Inr q)
    obtain res2 s2 where ren: "renderPass h q s1 = (res2, s2)"
      by (cases "renderPass h q s1") auto
    show ?thesis
      using frame_events_split[OF sr[unfolded Inr] ren] by (simp add: ia assms(2))
  qed
qed

lemma frame_Inr_fields:
  assumes "frame h now now2 st = (Inr u, st')" "sceneResolution h st = (Inr r, s1)"
  shows "sceneIndex st' = sceneIndex s1 \<and> currentScene st' = Some r \<and> scenes st' = scenes st
         \<and> endScene st' = endScene st"
proof -
  from assms obtain s2 where ren: "renderPass h r s1 = (Inr (), s2)"
    and st': "st' = scheduleNext now now2 (updateTiming now r s2)"
    by (auto simp: frame_Inr)
  show ?thesis
    using sceneResolution_fields[OF assms(2)] renderPass_fields[OF ren]
    by (simp add: st' scheduleNext_def updateTiming_def Let_def)
qed

lemma filter_is_init_frame:
  assumes "sceneResolution h st = (Inr r, s1)" "renderPass h r s1 = (Inr (), s2)"
  shows "filter is_init (frame_events h now now2 st) = drop (length (trace st)) (trace s1)"
proof -
  have a: "filter is_init (drop (length (trace st)) (trace s1)) = drop (length (trace st)) (trace s1)"
    using sceneResolution_inits[OF assms(1)] by (auto simp: is_init_def filter_id_conv)
  show ?thesis
    unfolding frame_completed_events[OF assms] filter_append a
    unfolding renderPass_Inr_trace[OF assms(2)]
    by (simp add: is_init_def)
qed

lemma game_over_interval_step:
  assumes "currentScene st = Some r" "isGameOver h (game st)" "endScene st = Some e"
    and "interval (heap st e) = Some iv" and "frame h now now2 st = (Inr (), st')"
  shows "(\<exists>evs. frame_events h now now2 st =
            OnInitScene e # CtxSave # OnRenderGame
              # IntervalRenderer e (iv\<lparr>framecounter := 0, complete := False\<rparr>) # evs)
       \<and> currentScene st' = Some e \<and> endScene st' = Some e
       \<and> (\<exists>iv'. interval (heap st' e) = Some iv')"
proof -
  define s1 where "s1 = st\<lparr>sceneIndex := - 1, heap := (heap st)(e := onInitScene (heap st e)),
               trace := trace st @ [OnInitScene e]\<rparr>"
  have sr: "sceneResolution h st = (Inr e, s1)"
    unfolding s1_def using assms(4) by (intro sceneResolution_game_over_stay[OF assms(1-3)]) simp
  have iv1: "interval (heap s1 e) = Some (iv\<lparr>framecounter := 0, complete := False\<rparr>)"
    using assms(4) by (simp add: s1_def interval_onInitScene reset_def)
  have nc: "\<not> complete (iv\<lparr>framecounter := 0, complete := False\<rparr>)" by simp
  from assms(5) sr obtain s2 where ren: "renderPass h e s1 = (Inr (), s2)"
    and st': "st' = scheduleNext now now2 (updateTiming now e s2)"
    by (auto simp: frame_Inr)
  have tr: "trace s2 = trace s1 @ [CtxSave, OnRenderGame,
              IntervalRenderer e (iv\<lparr>framecounter := 0, complete := False\<rparr>), CtxRestore]"
    by (rule renderPass_interval_Inr[OF iv1 nc ren])
  have ev: "\<exists>evs. frame_events h now now2 st =
            OnInitScene e # CtxSave # OnRenderGame
              # IntervalRenderer e (iv\<lparr>framecounter := 0, complete := False\<rparr>) # evs"
    using frame_events_split[OF sr ren] tr by (simp add: s1_def)
  have hp: "\<exists>iv'. interval (heap st' e) = Some iv'"
    using renderPass_interval_heap[OF iv1 nc ren] by (auto simp: st' finish_fields)
  show ?thesis
    using ev hp frame_Inr_fields[OF assms(5) sr] assms(3) by simp
qed

subsection \<open>Steps and runs that advance\<close>

lemma callHook_total:
  assumes "\<forall>g. \<exists>g'. f g = Inr g'"
  shows "\<exists>s. callHook ev f st = (Inr (), s) \<and> heap s = heap st"
proof -
  from assms obtain g' where "f (game st) = Inr g'" by blast
  then show ?thesis by (simp add: callHook_def Let_def)
qed

lemma renderPass_total:
  assumes "\<forall>g. \<exists>g'. onRenderGame h g = Inr g'"
    and "\<forall>r g. \<exists>g'. onBeforeRenderScene h r g = Inr g'"
    and "\<forall>r g. \<exists>g'. onRenderScene h r g = Inr g'"
    and "\<forall>r iv g. \<exists>iv' g'. intervalRenderer h r iv g = Inr (iv', g')"
  shows "\<exists>s. renderPass h r st = (Inr (), s)"
proof (cases "intervalDone (heap st r)")
  case True
  define st0 where "st0 = st\<lparr>trace := trace st @ [CtxSave]\<rparr>"
  obtain s1 where s1: "callHook (OnBeforeRenderScene r) (onBeforeRenderScene h r) st0 = (Inr (), s1)"
    using callHook_total[of "onBeforeRenderScene h r"] assms(2) by blast
  obtain s2 where s2: "callHook OnRenderGame (onRenderGame h) s1 = (Inr (), s2)"
    using callHook_total[of "onRenderGame h"] assms(1) by blast
  obtain s3 where s3: "callHook (OnRenderScene r) (onRenderScene h r) s2 = (Inr (), s3)"
    using callHook_total[of "onRenderScene h r"] assms(3) by blast
  show ?thesis
    using True s1 s2 s3 by (simp add: renderPass_def Let_def st0_def)
next
  case False
  define st0 where "st0 = st\<lparr>trace := trace st @ [CtxSave]\<rparr>"
  from False obtain iv where iv: "interval (heap st r) = Some iv"
    by (auto simp: intervalDone_def split: option.splits)
  obtain s1 where s1: "callHook OnRenderGame (onRenderGame h) st0 = (Inr (), s1)"
    and h1: "heap s1 = heap st0"
    using callHook_total[of "onRenderGame h"] assms(1) by blast
  have iv1: "interval (heap s1 r) = Some iv"
    using iv by (simp add: h1 st0_def)
  obtain iv' g' where "intervalRenderer h r iv (game s1) = Inr (iv', g')"
    using assms(4) by blast
  then obtain s2 where s2: "callIntervalRenderer h r s1 = (Inr (), s2)"
    using iv1 by (simp add: callIntervalRenderer_def Let_def)
  show ?thesis
    using False s1 s2 by (simp add: renderPass_def Let_def st0_def)
qed

lemma advancing_resolution:
  assumes adv: "advancing h st"
    and idx: "0 \<le> sceneIndex st" "sceneIndex st < int (length (scenes st))"
  shows "sceneResolution h st =
           (Inr (scenes st ! nat ((sceneIndex st + 1) mod int (length (scenes st)))),
            st\<lparr>sceneIndex := (sceneIndex st + 1) mod int (length (scenes st)),
               heap := (heap st)(scenes st ! nat ((sceneIndex st + 1) mod int (length (scenes st)))
                        := onInitScene (heap st (scenes st ! nat ((sceneIndex st + 1) mod int (length (scenes st)))))),
               trace := trace st
                   @ [OnInitScene (scenes st ! nat ((sceneIndex st + 1) mod int (length (scenes st))))]\<rparr>)"
proof -
  from adv obtain r where cur: "currentScene st = Some r" and ngo: "\<not> isGameOver h (game st)"
    and dn: "intervalDone (heap st r)" and cm: "isComplete h r (game st)"
    by (auto simp: advancing_def split: option.splits)
  have sr: "sceneResolution h st = advanceScene h r st"
    by (simp add: sceneResolution_def resolveScene_keep[OF cur ngo])
  show ?thesis
  proof (cases "sceneIndex st + 1 < int (length (scenes st))")
    case True
    then have m: "(sceneIndex st + 1) mod int (length (scenes st)) = sceneIndex st + 1"
      using idx by (simp add: mod_pos_pos_trivial)
    show ?thesis
      unfolding sr m using True idx dn cm
      by (simp add: advanceScene_def Let_def scene_at_def callOnInitScene_def)
  next
    case False
    then have "sceneIndex st + 1 = int (length (scenes st))" using idx by linarith
    then have m: "(sceneIndex st + 1) mod int (length (scenes st)) = 0" by simp
    have ne: "scenes st \<noteq> []" using idx by auto
    show ?thesis
      unfolding sr m using False idx dn cm ne
      by (simp add: advanceScene_def Let_def scene_at_def callOnInitScene_def)
  qed
qed

lemma frame_advancing_total:
  assumes adv: "advancing h st"
    and idx: "0 \<le> sceneIndex st" "sceneIndex st < int (length (scenes st))"
    and "\<forall>g. \<exists>g'. onRenderGame h g = Inr g'"
    and "\<forall>r g. \<exists>g'. onBeforeRenderScene h r g = Inr g'"
    and "\<forall>r g. \<exists>g'. onRenderScene h r g = Inr g'"
    and "\<forall>r iv g. \<exists>iv' g'. intervalRenderer h r iv g = Inr (iv', g')"
  shows "\<exists>st'. frame h now now2 st = (Inr (), st')
           \<and> sceneIndex st' = (sceneIndex st + 1) mod int (length (scenes st))
           \<and> scenes st' = scenes st
           \<and> currentScene st' = Some (scenes st ! nat ((sceneIndex st + 1) mod int (length (scenes st))))"
proof -
  note sr = advancing_resolution[OF adv idx]
  obtain s2 where ren: "renderPass h (scenes st ! nat ((sceneIndex st + 1) mod int (length (scenes st))))
      (st\<lparr>sceneIndex := (sceneIndex st + 1) mod int (length (scenes st)),
               heap := (heap st)(scenes st ! nat ((sceneIndex st + 1) mod int (length (scenes st)))
                        := onInitScene (heap st (scenes st ! nat ((sceneIndex st + 1) mod int (length (scenes st)))))),
               trace := trace st
                   @ [OnInitScene (scenes st ! nat ((sceneIndex st + 1) mod int (length (scenes st))))]\<rparr>)
      = (Inr (), s2)"
    using renderPass_total[OF assms(4-7)] by blast
  have f: "frame h now now2 st = (Inr (), scheduleNext now now2
      (updateTiming now (scenes st ! nat ((sceneIndex st + 1) mod int (length (scenes st)))) s2))"
    using sr ren by (simp add: frame_Inr)
  from frame_Inr_fields[OF f sr] f show ?thesis by simp
qed

lemma run_append:
  "run h (xs @ ys) st = (case run h xs st of (Inl e, s) \<Rightarrow> (Inl e, s) | (Inr u, s) \<Rightarrow> run h ys s)"
  by (induction xs arbitrary: st) (auto split: prod.splits sum.splits)

lemma succ_mod_int:
  "(int (k mod n) + 1) mod int n = int (Suc k mod n)"
proof -
  have "(int (k mod n) + 1) mod int n = (int k mod int n + 1) mod int n"
    by (simp only: zmod_int)
  also have "\<dots> = (int k + 1) mod int n"
    by (rule mod_add_left_eq)
  also have "\<dots> = int (Suc k) mod int n"
    by (simp add: add.commute)
  also have "\<dots> = int (Suc k mod n)"
    by (simp only: zmod_int)
  finally show ?thesis .
qed

lemma run_prefix_advancing:
  assumes ne: "scenes st \<noteq> []" and i0: "sceneIndex st = 0"
    and adv: "\<forall>k < length ticks. advancing h (snd (run h (take k ticks) st))"
    and hk: "\<forall>g. \<exists>g'. onRenderGame h g = Inr g'"
      "\<forall>r g. \<exists>g'. onBeforeRenderScene h r g = Inr g'"
      "\<forall>r g. \<exists>g'. onRenderScene h r g = Inr g'"
      "\<forall>r iv g. \<exists>iv' g'. intervalRenderer h r iv g = Inr (iv', g')"
  shows "k \<le> length ticks \<Longrightarrow>
     \<exists>s. run h (take k ticks) st = (Inr (), s)
        \<and> sceneIndex s = int (k mod length (scenes st))
        \<and> scenes s = scenes st
        \<and> (0 < k \<longrightarrow> currentScene s = Some (scenes st ! (k mod length (scenes st))))"
proof (induction k)
  case 0
  then show ?case using i0 by simp
next
  case (Suc k)
  then have kl: "k < length ticks" by simp
  from Suc obtain s where s: "run h (take k ticks) st = (Inr (), s)"
    and si: "sceneIndex s = int (k mod length (scenes st))" and sc: "scenes s = scenes st"
    by auto
  have n: "0 < length (scenes st)" using ne by simp
  have a: "advancing h s"
    using adv kl s by (metis snd_conv)
  have idx: "0 \<le> sceneIndex s" "sceneIndex s < int (length (scenes s))"
    using n by (simp_all add: si sc)
  have key: "(sceneIndex s + 1) mod int (length (scenes s)) = int (Suc k mod length (scenes st))"
    unfolding si sc by (rule succ_mod_int)
  from frame_advancing_total[OF a idx hk, of "fst (ticks ! k)" "snd (ticks ! k)", unfolded key]
  obtain s' where f: "frame h (fst (ticks ! k)) (snd (ticks ! k)) s = (Inr (), s')"
    and si': "sceneIndex s' = int (Suc k mod length (scenes st))"
    and sc': "scenes s' = scenes s"
    and cu': "currentScene s' = Some (scenes s ! nat (int (Suc k mod length (scenes st))))"
    by blast
  have tk: "take (Suc k) ticks = take k ticks @ [ticks ! k]"
    using kl by (simp add: take_Suc_conv_app_nth)
  have r: "run h (take (Suc k) ticks) st = (Inr (), s')"
    unfolding tk run_append s using f by simp
  have cu2: "currentScene s' = Some (scenes st ! (Suc k mod length (scenes st)))"
    using cu' by (simp only: nat_int sc)
  have "scenes s' = scenes st" using sc' sc by simp
  with r si' cu2 show ?case by auto
qed

subsection \<open>The frame offset\<close>

lemma js_trunc_FPSMS: "js_trunc (FPSMS - real_of_int d) = (if d \<le> 16 then 16 - d else 17 - d)"
proof -
  have eq: "FPSMS - real_of_int d = real_of_int (16 - d) + 2 / 3"
    by (simp add: FPSMS_def)
  have fl: "\<lfloor>FPSMS - real_of_int d\<rfloor> = 16 - d"
    unfolding eq by (simp add: floor_eq_iff)
  have ce: "\<lceil>FPSMS - real_of_int d\<rceil> = 17 - d"
    unfolding eq by (simp add: ceiling_eq_iff)
  have neg: "FPSMS - real_of_int d < 0 \<longleftrightarrow> 17 \<le> d"
  proof -
    have "FPSMS - real_of_int d < 0 \<longleftrightarrow> real_of_int (16 - d) < - (2 / 3)"
      unfolding eq by linarith
    also have "\<dots> \<longleftrightarrow> 16 - d \<le> - 1"
      by linarith
    finally show ?thesis by linarith
  qed
  show ?thesis
    unfolding js_trunc_def fl ce neg by auto
qed

lemma frameOffset_fast:
  assumes "0 \<le> now2 - now" "now2 - now \<le> 16"
  shows "frameOffset now now2 = 16 - (now2 - now)"
proof -
  have "(16 - (now2 - now)) mod 2 ^ 32 = 16 - (now2 - now)"
    using assms by (intro mod_pos_pos_trivial) auto
  then show ?thesis
    unfolding frameOffset_def toInt32_def js_trunc_FPSMS Let_def using assms by simp
qed

lemma frameOffset_17:
  assumes "now2 - now = 17"
  shows "frameOffset now now2 = 0"
  unfolding frameOffset_def toInt32_def js_trunc_FPSMS Let_def using assms by simp

lemma frameOffset_slow:
  assumes "18 \<le> now2 - now" "now2 - now \<le> 2 ^ 31"
  shows "frameOffset now now2 = 17 - (now2 - now)"
proof -
  define d where "d = now2 - now"
  have d: "18 \<le> d" "d \<le> 2147483648" using assms by (simp_all add: d_def)
  have "(17 - d) mod 4294967296 = (17 - d + 4294967296) mod 4294967296"
    by (simp only: mod_add_self2)
  also have "\<dots> = 17 - d + 4294967296"
    using d by (intro mod_pos_pos_trivial) auto
  finally have m: "(17 - d) mod 4294967296 = 17 - d + 4294967296" .
  have "frameOffset now now2 = toInt32 (FPSMS - real_of_int d)"
    by (simp only: frameOffset_def d_def)
  also have "\<dots> = 17 - d"
    unfolding toInt32_def js_trunc_FPSMS Let_def using d m by simp
  finally show ?thesis by (simp add: d_def)
qed

subsection \<open>Rounding to a double\<close>














subsection \<open>Unfolding on the example games\<close>

lemmas frame_defs = frame_def sceneResolution_def resolveScene_def advanceScene_def renderPass_def
  callHook_def callIntervalRenderer_def callOnInitScene_def updateTiming_def scheduleNext_def
  scene_at_def field_ref_def onInitScene_def reset_def intervalDone_def frame_events_def Let_def

lemmas demo_defs = demo_hooks_def complete_hooks_def over_hooks_def over_complete_hooks_def
  throwing_hooks_def instant_hooks_def plain_scene_def banner_def banner_scene_def idle_handler_def
  boot_def playing_def plain_loop_def plain_end_def no_scenes_def no_end_def fade_def
  spark_def stuck_def

section \<open>Properties\<close>

subsection \<open>Frame multiplier\<close>

text \<open>
  Claim C1, as the code has it. After every completed step, \<open>frameMultipler\<close> is the
  interval between the clock value read at the start of the step and the stored
  \<open>frameStart\<close>, divided by \<open>FPSMS = 1000/60\<close>, where only an interval of exactly zero is
  replaced by 1 ms. For every non-negative interval this is \<open>max(interval, 1) / FPSMS\<close> and
  strictly positive. A negative interval (the clock went back) is not clamped: the
  multiplier is then negative.
\<close>

theorem frameMultipler_after_frame:
  assumes "frame h now now2 st = (Inr (), st')"
  shows "frameMultipler (handler st') =
           real_of_int (if now - frameStart (handler st) = 0 then 1 else now - frameStart (handler st)) / FPSMS
       \<and> (0 \<le> now - frameStart (handler st) \<longrightarrow>
            frameMultipler (handler st') = real_of_int (max (now - frameStart (handler st)) 1) / FPSMS
            \<and> 0 < frameMultipler (handler st'))
       \<and> (now - frameStart (handler st) < 0 \<longrightarrow> frameMultipler (handler st') < 0)"
proof -
  from assms obtain r s1 s2 where
    res: "sceneResolution h st = (Inr r, s1)" and ren: "renderPass h r s1 = (Inr (), s2)"
    and st': "st' = scheduleNext now now2 (updateTiming now r s2)"
    by (auto simp: frame_Inr)
  have hd: "handler s2 = handler st"
    using sceneResolution_fields[OF res] renderPass_fields[OF ren] by simp
  have fm: "frameMultipler (handler st') =
      real_of_int (if now - frameStart (handler st) = 0 then 1 else now - frameStart (handler st)) / FPSMS"
    by (simp add: st' scheduleNext_def updateTiming_def Let_def hd)
  have pos: "0 < FPSMS" by (simp add: FPSMS_def)
  show ?thesis
    unfolding fm using pos by (auto simp: max_def divide_neg_pos)
qed

text \<open>The statement at an interval of 5 ms and at an interval of -5 ms.\<close>

theorem frameMultipler_after_frame_witness:
  "frame demo_hooks 105 110 playing = (Inr (), snd (frame demo_hooks 105 110 playing))
   \<and> frameMultipler (handler (snd (frame demo_hooks 105 110 playing))) = 5 / FPSMS
   \<and> 0 < frameMultipler (handler (snd (frame demo_hooks 105 110 playing)))
   \<and> frame demo_hooks 95 110 playing = (Inr (), snd (frame demo_hooks 95 110 playing))
   \<and> frameMultipler (handler (snd (frame demo_hooks 95 110 playing))) < 0"
proof -
  have h1: "frame demo_hooks 105 110 playing = (Inr (), snd (frame demo_hooks 105 110 playing))"
    by (simp add: frame_defs demo_defs)
  have h2: "frame demo_hooks 95 110 playing = (Inr (), snd (frame demo_hooks 95 110 playing))"
    by (simp add: frame_defs demo_defs)
  have fs: "frameStart (handler playing) = 100"
    by (simp add: demo_defs)
  from frameMultipler_after_frame[OF h1]
  have a: "frameMultipler (handler (snd (frame demo_hooks 105 110 playing))) = 5 / FPSMS
      \<and> 0 < frameMultipler (handler (snd (frame demo_hooks 105 110 playing)))"
    by (simp add: fs FPSMS_def)
  from frameMultipler_after_frame[OF h2]
  have b: "frameMultipler (handler (snd (frame demo_hooks 95 110 playing))) < 0"
    by (simp add: fs FPSMS_def)
  show ?thesis using h1 h2 a b by blast
qed

text \<open>
  With \<open>frameStart = 100\<close> and the clock at 95 the step completes and the multiplier is
  \<open>-5 / FPSMS\<close>: it is neither \<open>max(-5, 1) / FPSMS\<close> nor positive.
\<close>

theorem frameMultipler_not_clamped:
  "fst (frame demo_hooks 95 110 playing) = Inr ()
   \<and> 95 - frameStart (handler playing) = - 5
   \<and> frameMultipler (handler (snd (frame demo_hooks 95 110 playing))) = - 5 / FPSMS
   \<and> frameMultipler (handler (snd (frame demo_hooks 95 110 playing)))
       \<noteq> real_of_int (max (95 - frameStart (handler playing)) 1) / FPSMS
   \<and> \<not> 0 < frameMultipler (handler (snd (frame demo_hooks 95 110 playing)))"
  by (simp add: frame_defs demo_defs FPSMS_def)

subsection \<open>Scene transitions of one step\<close>

text \<open>
  Claim C2, as the code has it. The first-frame branch and the game-over branch exclude
  each other (\<open>if\<close> / \<open>else if\<close>), but the completion check is a separate \<open>if\<close> that
  runs afterwards on the scene resolved so far, so a completed step makes at most two scene
  activations (\<open>onInitScene\<close> calls). If \<open>currentScene\<close> is null, the step first
  activates \<open>scenes[0]\<close> and calls its \<open>onInitScene()\<close>; it ends on \<open>scenes[0]\<close> with
  \<open>sceneIndex = 0\<close> unless \<open>scenes[0]\<close> has a null interval and its \<open>isComplete()\<close>
  holds, in which case the same step goes on to the next scene (\<open>scenes[1]\<close>, or
  \<open>scenes[0]\<close> again when it is the only one). When a scene is active, the game is not
  over and the scene is not complete, the scene and \<open>sceneIndex\<close> are kept and no
  \<open>onInitScene\<close> is called.
\<close>

theorem frame_scene_transitions:
  assumes "frame h now now2 st = (Inr (), st')"
  shows "length (filter is_init (frame_events h now now2 st)) \<le> 2
       \<and> (currentScene st = None \<longrightarrow>
            (\<exists>r0 evs. scene_at (scenes st) 0 = Obj r0
               \<and> frame_events h now now2 st = OnInitScene r0 # evs
               \<and> (if interval (heap st r0) = None \<and> isComplete h r0 (game st)
                  then sceneIndex st' = (if 1 < int (length (scenes st)) then 1 else 0)
                       \<and> scene_at (scenes st) (sceneIndex st') = field_ref (currentScene st')
                       \<and> length (filter is_init (frame_events h now now2 st)) = 2
                  else sceneIndex st' = 0 \<and> currentScene st' = Some r0
                       \<and> filter is_init (frame_events h now now2 st) = [OnInitScene r0])))
       \<and> (\<forall>r. currentScene st = Some r \<and> \<not> isGameOver h (game st)
              \<and> \<not> (intervalDone (heap st r) \<and> isComplete h r (game st)) \<longrightarrow>
            sceneIndex st' = sceneIndex st \<and> currentScene st' = Some r
            \<and> filter is_init (frame_events h now now2 st) = [])"
proof -
  from assms obtain r s1 s2 where
    sr: "sceneResolution h st = (Inr r, s1)" and ren: "renderPass h r s1 = (Inr (), s2)"
    by (auto simp: frame_Inr)
  note fi = filter_is_init_frame[OF sr ren]
  note ff = frame_Inr_fields[OF assms sr]
  from sr obtain r' s0 where rs: "resolveScene h st = (Inr r', s0)" and adv: "advanceScene h r' s0 = (Inr r, s1)"
    by (auto simp: sceneResolution_def andThen_Inr_iff)
  have count: "length (filter is_init (frame_events h now now2 st)) \<le> 2"
    unfolding fi using sceneResolution_trace[OF sr] by auto
  have first: "\<exists>r0 evs. scene_at (scenes st) 0 = Obj r0
               \<and> frame_events h now now2 st = OnInitScene r0 # evs
               \<and> (if interval (heap st r0) = None \<and> isComplete h r0 (game st)
                  then sceneIndex st' = (if 1 < int (length (scenes st)) then 1 else 0)
                       \<and> scene_at (scenes st) (sceneIndex st') = field_ref (currentScene st')
                       \<and> length (filter is_init (frame_events h now now2 st)) = 2
                  else sceneIndex st' = 0 \<and> currentScene st' = Some r0
                       \<and> filter is_init (frame_events h now now2 st) = [OnInitScene r0])"
    if cn: "currentScene st = None"
  proof -
    have at0: "scene_at (scenes st) 0 = Obj r'"
      by (rule resolveScene_first_Inr[OF cn rs])
    note rs0 = resolveScene_first[OF cn at0, of h]
    have s0: "s0 = st\<lparr>sceneIndex := 0, heap := (heap st)(r' := onInitScene (heap st r')),
                trace := trace st @ [OnInitScene r']\<rparr>"
      using rs rs0 by simp
    have ev: "\<exists>evs. frame_events h now now2 st = OnInitScene r' # evs"
      by (rule frame_events_first[OF rs]) (simp add: s0)
    have dn: "intervalDone (heap s0 r') \<longleftrightarrow> interval (heap st r') = None"
      by (simp add: s0 intervalDone_onInitScene)
    have g0: "game s0 = game st" by (simp add: s0)
    show ?thesis
    proof (cases "interval (heap st r') = None \<and> isComplete h r' (game st)")
      case True
      then have "intervalDone (heap s0 r')" "isComplete h r' (game s0)"
        by (simp_all add: dn g0)
      note go = advanceScene_go[OF this adv]
      have p: "sceneIndex s0 = 0" "scenes s0 = scenes st" "trace s0 = trace st @ [OnInitScene r']"
        by (simp_all add: s0)
      from go[unfolded p]
      have "sceneIndex s1 = (if 1 < int (length (scenes st)) then 1 else 0)"
        "scene_at (scenes st) (sceneIndex s1) = Obj r" "trace s1 = trace st @ [OnInitScene r', OnInitScene r]"
        by (auto split: if_splits)
      with True at0 ev ff show ?thesis
        by (simp add: fi field_ref_def)
    next
      case False
      then have "\<not> (intervalDone (heap s0 r') \<and> isComplete h r' (game s0))"
        by (simp add: dn g0)
      from advanceScene_stay[OF this] adv have "r = r'" "s1 = s0" by simp_all
      with False at0 ev ff show ?thesis
        by (simp add: fi s0)
    qed
  qed
  have keep: "sceneIndex st' = sceneIndex st \<and> currentScene st' = Some q
            \<and> filter is_init (frame_events h now now2 st) = []"
    if k: "currentScene st = Some q" "\<not> isGameOver h (game st)"
      "\<not> (intervalDone (heap st q) \<and> isComplete h q (game st))" for q
  proof -
    have "sceneResolution h st = (Inr q, st)"
      by (simp add: sceneResolution_def resolveScene_keep[OF k(1,2)] advanceScene_stay[OF k(3)])
    with sr have "r = q" "s1 = st" by simp_all
    with ff show ?thesis by (simp add: fi)
  qed
  show ?thesis using count first keep by blast
qed

text \<open>The statement on a first frame whose first scene is complete at once, and on a
  later frame of a scene that is not complete.\<close>

theorem frame_scene_transitions_witness:
  "frame complete_hooks 105 110 boot = (Inr (), snd (frame complete_hooks 105 110 boot))
   \<and> currentScene boot = None
   \<and> length (filter is_init (frame_events complete_hooks 105 110 boot)) = 2
   \<and> sceneIndex (snd (frame complete_hooks 105 110 boot)) = 1
   \<and> frame demo_hooks 105 110 playing = (Inr (), snd (frame demo_hooks 105 110 playing))
   \<and> currentScene playing = Some 0 \<and> \<not> isGameOver demo_hooks (game playing)
   \<and> \<not> (intervalDone (heap playing 0) \<and> isComplete demo_hooks 0 (game playing))
   \<and> sceneIndex (snd (frame demo_hooks 105 110 playing)) = sceneIndex playing
   \<and> currentScene (snd (frame demo_hooks 105 110 playing)) = Some 0
   \<and> filter is_init (frame_events demo_hooks 105 110 playing) = []"
proof -
  have h1: "frame complete_hooks 105 110 boot = (Inr (), snd (frame complete_hooks 105 110 boot))"
    by (simp add: frame_defs demo_defs)
  have h2: "frame demo_hooks 105 110 playing = (Inr (), snd (frame demo_hooks 105 110 playing))"
    by (simp add: frame_defs demo_defs)
  have c1: "currentScene boot = None" "scene_at (scenes boot) 0 = Obj 0"
    "interval (heap boot 0) = None" "isComplete complete_hooks 0 (game boot)"
    "int (length (scenes boot)) = 3"
    by (simp_all add: demo_defs scene_at_def)
  have c2: "currentScene playing = Some 0" "\<not> isGameOver demo_hooks (game playing)"
    "\<not> (intervalDone (heap playing 0) \<and> isComplete demo_hooks 0 (game playing))"
    by (simp_all add: demo_defs)
  from frame_scene_transitions[OF h1] c1
  have a: "length (filter is_init (frame_events complete_hooks 105 110 boot)) = 2
      \<and> sceneIndex (snd (frame complete_hooks 105 110 boot)) = 1"
    by auto
  from frame_scene_transitions[OF h2] c2
  have b: "sceneIndex (snd (frame demo_hooks 105 110 playing)) = sceneIndex playing
   \<and> currentScene (snd (frame demo_hooks 105 110 playing)) = Some 0
   \<and> filter is_init (frame_events demo_hooks 105 110 playing) = []"
    by blast
  show ?thesis using h1 h2 c1(1) c2 a b by blast
qed

text \<open>
  A first frame in which \<open>scenes[0]\<close> has no interval and reports \<open>isComplete()\<close>: the
  same step activates \<open>scenes[0]\<close> and then \<open>scenes[1]\<close>, and ends with \<open>sceneIndex = 1\<close>.
\<close>

theorem first_frame_advances:
  "currentScene boot = None
   \<and> interval (heap boot 0) = None \<and> isComplete complete_hooks 0 (game boot)
   \<and> fst (frame complete_hooks 105 110 boot) = Inr ()
   \<and> sceneIndex (snd (frame complete_hooks 105 110 boot)) = 1
   \<and> currentScene (snd (frame complete_hooks 105 110 boot)) = Some 1
   \<and> frame_events complete_hooks 105 110 boot =
       [OnInitScene 0, OnInitScene 1, CtxSave, OnRenderGame, IntervalRenderer 1 banner,
        CtxRestore, RequestAnimFrame (frameOffset 105 110)]"
  by (simp add: frame_defs demo_defs)

subsection \<open>The two render paths\<close>

text \<open>
  Claim C3. Let the scene resolution of a step end on scene \<open>r\<close>. If \<open>r\<close> holds an
  interval whose \<open>complete\<close> flag is false, the step never calls \<open>onBeforeRenderScene\<close>
  or \<open>onRenderScene\<close>, and a completed step has rendered through the interval renderer
  (\<open>save\<close>, game render hook, interval renderer, \<open>restore\<close>). If the interval of
  \<open>r\<close> is null or complete, the step never calls the interval renderer, and a completed
  step has run the normal path (\<open>save\<close>, \<open>onBeforeRenderScene\<close>, game render hook,
  \<open>onRenderScene\<close>, \<open>restore\<close>).
\<close>

theorem render_paths_exclusive:
  assumes "sceneResolution h st = (Inr r, s)"
  shows "(\<forall>iv. interval (heap s r) = Some iv \<and> \<not> complete iv \<longrightarrow>
            (\<forall>q. OnBeforeRenderScene q \<notin> set (frame_events h now now2 st)
                \<and> OnRenderScene q \<notin> set (frame_events h now now2 st))
            \<and> (fst (frame h now now2 st) = Inr () \<longrightarrow>
                 (\<exists>pre post. frame_events h now now2 st =
                    pre @ [CtxSave, OnRenderGame, IntervalRenderer r iv, CtxRestore] @ post)))
       \<and> ((interval (heap s r) = None \<or> (\<exists>iv. interval (heap s r) = Some iv \<and> complete iv)) \<longrightarrow>
            (\<forall>q iv. IntervalRenderer q iv \<notin> set (frame_events h now now2 st))
            \<and> (fst (frame h now now2 st) = Inr () \<longrightarrow>
                 (\<exists>pre post. frame_events h now now2 st =
                    pre @ [CtxSave, OnBeforeRenderScene r, OnRenderGame, OnRenderScene r, CtxRestore] @ post)))"
proof -
  obtain res s2 where ren: "renderPass h r s = (res, s2)"
    by (cases "renderPass h r s") auto
  define ia where "ia = drop (length (trace st)) (trace s)"
  define ib where "ib = drop (length (trace s)) (trace s2)"
  define ic where "ic = (case res of Inl e \<Rightarrow> []
              | Inr u \<Rightarrow> if paused (handler st) then [] else [RequestAnimFrame (frameOffset now now2)])"
  have E: "frame_events h now now2 st = ia @ ib @ ic"
    using frame_events_split[OF assms ren] by (simp add: ia_def ib_def ic_def)
  have ia: "\<forall>x \<in> set ia. \<exists>q. x = OnInitScene q"
    using sceneResolution_inits[OF assms] by (simp add: ia_def)
  have ic: "\<forall>x \<in> set ic. \<exists>d. x = RequestAnimFrame d"
    by (auto simp: ic_def split: sum.splits)
  have fr: "fst (frame h now now2 st) = Inr () \<longleftrightarrow> res = Inr ()"
    using assms ren by (cases res) (auto simp: frame_def)
  have part1: "(\<forall>q. OnBeforeRenderScene q \<notin> set (ia @ ib @ ic) \<and> OnRenderScene q \<notin> set (ia @ ib @ ic))
            \<and> (res = Inr () \<longrightarrow> ib = [CtxSave, OnRenderGame, IntervalRenderer r iv, CtxRestore])"
    if iv: "interval (heap s r) = Some iv" "\<not> complete iv" for iv
  proof (cases res)
    case (Inl e)
    from renderPass_interval_Inl[OF iv] ren Inl
    obtain evs where "trace s2 = trace s @ CtxSave # evs" "set evs \<subseteq> {OnRenderGame, IntervalRenderer r iv}"
      by blast
    then have "set ib \<subseteq> {CtxSave, OnRenderGame, IntervalRenderer r iv}"
      by (auto simp: ib_def)
    with ia ic Inl show ?thesis by auto
  next
    case (Inr u)
    from renderPass_interval_Inr[OF iv] ren Inr
    have "ib = [CtxSave, OnRenderGame, IntervalRenderer r iv, CtxRestore]"
      by (simp add: ib_def)
    with ia ic show ?thesis by auto
  qed
  have part2: "(\<forall>q iv. IntervalRenderer q iv \<notin> set (ia @ ib @ ic))
      \<and> (res = Inr () \<longrightarrow> ib = [CtxSave, OnBeforeRenderScene r, OnRenderGame, OnRenderScene r, CtxRestore])"
    if dn: "intervalDone (heap s r)"
  proof (cases res)
    case (Inl e)
    from renderPass_normal_Inl[OF dn] ren Inl
    obtain evs where "trace s2 = trace s @ CtxSave # evs"
      "set evs \<subseteq> {OnBeforeRenderScene r, OnRenderGame, OnRenderScene r}"
      by blast
    then have "set ib \<subseteq> {CtxSave, OnBeforeRenderScene r, OnRenderGame, OnRenderScene r}"
      by (auto simp: ib_def)
    with ia ic Inl show ?thesis by auto
  next
    case (Inr u)
    from renderPass_normal_Inr[OF dn] ren Inr
    have "ib = [CtxSave, OnBeforeRenderScene r, OnRenderGame, OnRenderScene r, CtxRestore]"
      by (simp add: ib_def)
    with ia ic show ?thesis by auto
  qed
  have dn_iff: "intervalDone (heap s r) \<longleftrightarrow>
      (interval (heap s r) = None \<or> (\<exists>iv. interval (heap s r) = Some iv \<and> complete iv))"
    by (auto simp: intervalDone_def split: option.splits)
  show ?thesis
    unfolding E fr dn_iff[symmetric]
    using part1 part2 by blast
qed

text \<open>Both paths: a scene without interval, and a first frame that ends on the scene
  with the banner interval.\<close>

theorem render_paths_exclusive_witness:
  "sceneResolution demo_hooks playing = (Inr 0, playing)
   \<and> interval (heap playing 0) = None
   \<and> fst (frame demo_hooks 105 110 playing) = Inr ()
   \<and> IntervalRenderer 1 banner \<notin> set (frame_events demo_hooks 105 110 playing)
   \<and> sceneResolution complete_hooks boot = (Inr 1, snd (sceneResolution complete_hooks boot))
   \<and> interval (heap (snd (sceneResolution complete_hooks boot)) 1) = Some banner
   \<and> \<not> complete banner
   \<and> fst (frame complete_hooks 105 110 boot) = Inr ()
   \<and> OnBeforeRenderScene 1 \<notin> set (frame_events complete_hooks 105 110 boot)
   \<and> OnRenderScene 1 \<notin> set (frame_events complete_hooks 105 110 boot)"
proof -
  have h1: "sceneResolution demo_hooks playing = (Inr 0, playing)"
    by (simp add: frame_defs demo_defs)
  have h2: "sceneResolution complete_hooks boot = (Inr 1, snd (sceneResolution complete_hooks boot))"
    by (simp add: frame_defs demo_defs)
  have c1: "interval (heap playing 0) = None" "fst (frame demo_hooks 105 110 playing) = Inr ()"
    by (simp_all add: frame_defs demo_defs)
  have c2: "interval (heap (snd (sceneResolution complete_hooks boot)) 1) = Some banner"
    "\<not> complete banner" "fst (frame complete_hooks 105 110 boot) = Inr ()"
    by (simp_all add: frame_defs demo_defs)
  from render_paths_exclusive[OF h1, of 105 110] c1
  have a: "IntervalRenderer 1 banner \<notin> set (frame_events demo_hooks 105 110 playing)"
    by blast
  from render_paths_exclusive[OF h2, of 105 110] c2
  have b: "OnBeforeRenderScene 1 \<notin> set (frame_events complete_hooks 105 110 boot)
   \<and> OnRenderScene 1 \<notin> set (frame_events complete_hooks 105 110 boot)"
    by blast
  show ?thesis using h1 h2 c1 c2 a b by blast
qed

subsection \<open>Cyclic advancement\<close>

text \<open>
  Claim C4. Take \<open>N \<ge> 1\<close> scenes and \<open>N\<close> consecutive steps that start with
  \<open>sceneIndex = 0\<close>, such that at the start of each step a scene is active, the game is
  not over, the active scene's interval is null or complete and its \<open>isComplete()\<close> is
  true; the render hooks of the game do not throw. Then every one of the steps succeeds:
  the \<open>k\<close>-th step (counted from 0) starts with \<open>sceneIndex = k\<close>, its scene
  resolution moves \<open>sceneIndex\<close> to \<open>(k + 1) mod N\<close> and activates the scene at that
  index by calling its \<open>onInitScene()\<close>, and the step ends with that scene current. The
  last step steps past the last scene, which is not an error: the run ends with
  \<open>sceneIndex = 0\<close> and \<open>scenes[0]\<close> current.
\<close>

theorem scene_advance_cyclic:
  assumes "scenes st \<noteq> []" and "length ticks = length (scenes st)" and "sceneIndex st = 0"
    and "\<forall>k < length ticks. advancing h (snd (run h (take k ticks) st))"
    and "\<forall>g. \<exists>g'. onRenderGame h g = Inr g'"
    and "\<forall>r g. \<exists>g'. onBeforeRenderScene h r g = Inr g'"
    and "\<forall>r g. \<exists>g'. onRenderScene h r g = Inr g'"
    and "\<forall>r iv g. \<exists>iv' g'. intervalRenderer h r iv g = Inr (iv', g')"
  shows "(\<exists>st'. run h ticks st = (Inr (), st') \<and> sceneIndex st' = 0
            \<and> currentScene st' = Some (scenes st ! 0) \<and> scenes st' = scenes st)
       \<and> (\<forall>k < length ticks. \<exists>s s'.
             run h (take k ticks) st = (Inr (), s) \<and> sceneIndex s = int k
           \<and> sceneResolution h s =
               (Inr (scenes st ! (Suc k mod length ticks)),
                s\<lparr>sceneIndex := int (Suc k mod length ticks),
                  heap := (heap s)(scenes st ! (Suc k mod length ticks)
                            := onInitScene (heap s (scenes st ! (Suc k mod length ticks)))),
                  trace := trace s @ [OnInitScene (scenes st ! (Suc k mod length ticks))]\<rparr>)
           \<and> frame h (fst (ticks ! k)) (snd (ticks ! k)) s = (Inr (), s')
           \<and> run h (take (Suc k) ticks) st = (Inr (), s')
           \<and> sceneIndex s' = int (Suc k mod length ticks)
           \<and> currentScene s' = Some (scenes st ! (Suc k mod length ticks)))"
proof -
  note pre = run_prefix_advancing[OF assms(1,3,4,5,6,7,8)]
  have n: "0 < length ticks" using assms(1,2) by simp
  have whole: "\<exists>st'. run h ticks st = (Inr (), st') \<and> sceneIndex st' = 0
            \<and> currentScene st' = Some (scenes st ! 0) \<and> scenes st' = scenes st"
    using pre[of "length ticks"] n assms(2) by auto
  have step: "\<exists>s s'.
             run h (take k ticks) st = (Inr (), s) \<and> sceneIndex s = int k
           \<and> sceneResolution h s =
               (Inr (scenes st ! (Suc k mod length ticks)),
                s\<lparr>sceneIndex := int (Suc k mod length ticks),
                  heap := (heap s)(scenes st ! (Suc k mod length ticks)
                            := onInitScene (heap s (scenes st ! (Suc k mod length ticks)))),
                  trace := trace s @ [OnInitScene (scenes st ! (Suc k mod length ticks))]\<rparr>)
           \<and> frame h (fst (ticks ! k)) (snd (ticks ! k)) s = (Inr (), s')
           \<and> run h (take (Suc k) ticks) st = (Inr (), s')
           \<and> sceneIndex s' = int (Suc k mod length ticks)
           \<and> currentScene s' = Some (scenes st ! (Suc k mod length ticks))"
    if kl: "k < length ticks" for k
  proof -
    from pre[of k] kl obtain s where s: "run h (take k ticks) st = (Inr (), s)"
      and si: "sceneIndex s = int (k mod length (scenes st))" and sc: "scenes s = scenes st"
      by auto
    have sk: "sceneIndex s = int k"
      using kl assms(2) by (simp add: si)
    have a: "advancing h s"
      using assms(4) kl s by (metis snd_conv)
    have idx: "0 \<le> sceneIndex s" "sceneIndex s < int (length (scenes s))"
      using kl assms(2) by (simp_all add: sk sc)
    have key: "(sceneIndex s + 1) mod int (length (scenes s)) = int (Suc k mod length ticks)"
      unfolding si sc assms(2) by (rule succ_mod_int)
    have sr: "sceneResolution h s =
               (Inr (scenes st ! (Suc k mod length ticks)),
                s\<lparr>sceneIndex := int (Suc k mod length ticks),
                  heap := (heap s)(scenes st ! (Suc k mod length ticks)
                            := onInitScene (heap s (scenes st ! (Suc k mod length ticks)))),
                  trace := trace s @ [OnInitScene (scenes st ! (Suc k mod length ticks))]\<rparr>)"
      using advancing_resolution[OF a idx, unfolded key] by (simp only: nat_int sc)
    from pre[of "Suc k"] kl obtain s' where s': "run h (take (Suc k) ticks) st = (Inr (), s')"
      and si': "sceneIndex s' = int (Suc k mod length (scenes st))"
      and cu': "currentScene s' = Some (scenes st ! (Suc k mod length (scenes st)))"
      by auto
    have tk: "take (Suc k) ticks = take k ticks @ [ticks ! k]"
      using kl by (simp add: take_Suc_conv_app_nth)
    have f: "frame h (fst (ticks ! k)) (snd (ticks ! k)) s = (Inr (), s')"
      using s'[unfolded tk run_append s] by (auto split: prod.splits sum.splits)
    from s sk sr f s' si'[folded assms(2)] cu'[folded assms(2)] show ?thesis by blast
  qed
  show ?thesis using whole step by blast
qed

text \<open>Three scenes without intervals that are always complete, three steps.\<close>

theorem scene_advance_cyclic_witness:
  "scenes plain_loop \<noteq> []
   \<and> length [(105 :: int, 110 :: int), (120, 125), (140, 145)] = length (scenes plain_loop)
   \<and> sceneIndex plain_loop = 0
   \<and> advancing complete_hooks plain_loop
   \<and> advancing complete_hooks (snd (run complete_hooks [(105, 110)] plain_loop))
   \<and> advancing complete_hooks (snd (run complete_hooks [(105, 110), (120, 125)] plain_loop))
   \<and> (\<forall>g. \<exists>g'. onRenderGame complete_hooks g = Inr g')
   \<and> (\<forall>r g. \<exists>g'. onBeforeRenderScene complete_hooks r g = Inr g')
   \<and> (\<forall>r g. \<exists>g'. onRenderScene complete_hooks r g = Inr g')
   \<and> (\<forall>r iv g. \<exists>iv' g'. intervalRenderer complete_hooks r iv g = Inr (iv', g'))
   \<and> fst (run complete_hooks [(105, 110), (120, 125), (140, 145)] plain_loop) = Inr ()
   \<and> sceneIndex (snd (run complete_hooks [(105, 110), (120, 125), (140, 145)] plain_loop)) = 0
   \<and> currentScene (snd (run complete_hooks [(105, 110), (120, 125), (140, 145)] plain_loop)) = Some 0
   \<and> sceneIndex (snd (run complete_hooks [(105, 110)] plain_loop)) = 1
   \<and> currentScene (snd (run complete_hooks [(105, 110)] plain_loop)) = Some 1"
proof -
  define ticks where "ticks = [(105 :: int, 110 :: int), (120, 125), (140, 145)]"
  have c: "scenes plain_loop \<noteq> []" "length ticks = length (scenes plain_loop)"
    "sceneIndex plain_loop = 0"
    by (simp_all add: demo_defs ticks_def)
  have sc: "scenes plain_loop = [0, 1, 2]"
    by (simp add: demo_defs)
  have a0: "advancing complete_hooks plain_loop"
    by (simp add: advancing_def frame_defs demo_defs)
  have a1: "advancing complete_hooks (snd (run complete_hooks [(105, 110)] plain_loop))"
    by (simp add: advancing_def frame_defs demo_defs)
  have a2: "advancing complete_hooks (snd (run complete_hooks [(105, 110), (120, 125)] plain_loop))"
    by (simp add: advancing_def frame_defs demo_defs)
  have hk: "\<forall>g. \<exists>g'. onRenderGame complete_hooks g = Inr g'"
    "\<forall>r g. \<exists>g'. onBeforeRenderScene complete_hooks r g = Inr g'"
    "\<forall>r g. \<exists>g'. onRenderScene complete_hooks r g = Inr g'"
    "\<forall>r iv g. \<exists>iv' g'. intervalRenderer complete_hooks r iv g = Inr (iv', g')"
    by (simp_all add: demo_defs)
  have adv: "\<forall>k < length ticks. advancing complete_hooks (snd (run complete_hooks (take k ticks) plain_loop))"
  proof (intro allI impI)
    fix k assume "k < length ticks"
    then have "k = 0 \<or> k = 1 \<or> k = 2" by (auto simp: ticks_def)
    then show "advancing complete_hooks (snd (run complete_hooks (take k ticks) plain_loop))"
      using a0 a1 a2 by (auto simp: ticks_def)
  qed
  note t = scene_advance_cyclic[OF c adv hk]
  from t obtain st' where w: "run complete_hooks ticks plain_loop = (Inr (), st')"
    "sceneIndex st' = 0" "currentScene st' = Some (scenes plain_loop ! 0)"
    by blast
  have whole: "fst (run complete_hooks ticks plain_loop) = Inr ()"
    "sceneIndex (snd (run complete_hooks ticks plain_loop)) = 0"
    "currentScene (snd (run complete_hooks ticks plain_loop)) = Some 0"
    using w by (simp_all add: sc)
  have "(0::nat) < length ticks" by (simp add: ticks_def)
  with t obtain s' where f: "run complete_hooks (take (Suc 0) ticks) plain_loop = (Inr (), s')"
    "sceneIndex s' = int (Suc 0 mod length ticks)"
    "currentScene s' = Some (scenes plain_loop ! (Suc 0 mod length ticks))"
    by blast
  have first: "sceneIndex (snd (run complete_hooks [(105, 110)] plain_loop)) = 1"
    "currentScene (snd (run complete_hooks [(105, 110)] plain_loop)) = Some 1"
    using f by (simp_all add: ticks_def sc)
  show ?thesis
    using c(1,3) a0 a1 a2 hk whole first c(2) unfolding ticks_def by blast
qed

subsection \<open>Game over\<close>

text \<open>
  Claim C5, as the code has it. When a scene is active, \<open>isGameOver()\<close> is true and an
  end scene is set, the step sets \<open>sceneIndex = -1\<close> and activates \<open>endScene\<close>, calling
  its \<open>onInitScene()\<close> as the first call of the step, whatever the state of the scene
  that was active. A completed step ends with \<open>sceneIndex = -1\<close> and \<open>endScene\<close>
  current, unless the end scene has a null interval and its \<open>isComplete()\<close> is true
  (the completion check of line 220 then applies to the end scene in the same step).
\<close>

theorem game_over_transition:
  assumes "currentScene st = Some r" and "isGameOver h (game st)" and "endScene st = Some e"
  shows "resolveScene h st =
           (Inr e, st\<lparr>sceneIndex := - 1, heap := (heap st)(e := onInitScene (heap st e)),
                     trace := trace st @ [OnInitScene e]\<rparr>)
       \<and> (\<exists>evs. frame_events h now now2 st = OnInitScene e # evs)
       \<and> (\<forall>st'. frame h now now2 st = (Inr (), st')
              \<and> \<not> (interval (heap st e) = None \<and> isComplete h e (game st))
            \<longrightarrow> sceneIndex st' = - 1 \<and> currentScene st' = Some e)"
proof -
  note rs = resolveScene_game_over[OF assms]
  have ev: "\<exists>evs. frame_events h now now2 st = OnInitScene e # evs"
    by (rule frame_events_first[OF rs]) simp
  have fin: "sceneIndex st' = - 1 \<and> currentScene st' = Some e"
    if "frame h now now2 st = (Inr (), st')"
      "\<not> (interval (heap st e) = None \<and> isComplete h e (game st))" for st'
    using frame_Inr_fields[OF that(1) sceneResolution_game_over_stay[OF assms that(2)]] by simp
  show ?thesis using rs ev fin by blast
qed

text \<open>The statement for the end scene with the banner interval.\<close>

theorem game_over_transition_witness:
  "currentScene playing = Some 0
   \<and> isGameOver over_hooks (game playing)
   \<and> endScene playing = Some 3
   \<and> frame over_hooks 105 110 playing = (Inr (), snd (frame over_hooks 105 110 playing))
   \<and> interval (heap playing 3) \<noteq> None
   \<and> sceneIndex (snd (resolveScene over_hooks playing)) = - 1
   \<and> sceneIndex (snd (frame over_hooks 105 110 playing)) = - 1
   \<and> currentScene (snd (frame over_hooks 105 110 playing)) = Some 3"
proof -
  have c: "currentScene playing = Some 0" "isGameOver over_hooks (game playing)"
    "endScene playing = Some 3"
    by (simp_all add: demo_defs)
  have f: "frame over_hooks 105 110 playing = (Inr (), snd (frame over_hooks 105 110 playing))"
    by (simp add: frame_defs demo_defs)
  have i: "interval (heap playing 3) \<noteq> None"
    by (simp add: demo_defs)
  note t = game_over_transition[OF c, of 105 110]
  from t have a: "sceneIndex (snd (resolveScene over_hooks playing)) = - 1"
    by simp
  from t f i have b: "sceneIndex (snd (frame over_hooks 105 110 playing)) = - 1
     \<and> currentScene (snd (frame over_hooks 105 110 playing)) = Some 3"
    by simp
  show ?thesis using c f i a b by blast
qed

text \<open>
  An end scene without interval that reports \<open>isComplete()\<close>: the game-over step ends
  with \<open>sceneIndex = 0\<close> and \<open>scenes[0]\<close> current, not with \<open>-1\<close> and the end scene.
\<close>

theorem game_over_end_scene_skipped:
  "currentScene plain_end = Some 0
   \<and> isGameOver over_complete_hooks (game plain_end)
   \<and> endScene plain_end = Some 2
   \<and> fst (frame over_complete_hooks 105 110 plain_end) = Inr ()
   \<and> sceneIndex (snd (frame over_complete_hooks 105 110 plain_end)) = 0
   \<and> currentScene (snd (frame over_complete_hooks 105 110 plain_end)) = Some 0
   \<and> sceneIndex (snd (frame over_complete_hooks 105 110 plain_end)) \<noteq> - 1
   \<and> currentScene (snd (frame over_complete_hooks 105 110 plain_end)) \<noteq> endScene plain_end"
  by (simp add: frame_defs demo_defs)

subsection \<open>Exceptions in the render pass\<close>

text \<open>
  Claim C6, as the code has it. The render calls are not guarded. If a step whose scene
  resolution succeeded raises an exception, the exception comes from the render pass and
  ends the step there: \<open>ctx.save()\<close> has been called once, \<open>ctx.restore()\<close> is not called,
  nothing is scheduled, and \<open>currentScene\<close> and the timing fields are not updated.
  \<open>ctx.restore()\<close> is called (once) exactly in the steps that complete.
\<close>

theorem render_exception_skips_restore:
  assumes "sceneResolution h st = (Inr r, s)"
  shows "(\<forall>e st'. frame h now now2 st = (Inl e, st') \<longrightarrow>
            renderPass h r s = (Inl e, st')
            \<and> count_list (frame_events h now now2 st) CtxSave = 1
            \<and> count_list (frame_events h now now2 st) CtxRestore = 0
            \<and> (\<forall>d. RequestAnimFrame d \<notin> set (frame_events h now now2 st))
            \<and> currentScene st' = currentScene st \<and> handler st' = handler st)
       \<and> (\<forall>st'. frame h now now2 st = (Inr (), st') \<longrightarrow>
            count_list (frame_events h now now2 st) CtxSave = 1
            \<and> count_list (frame_events h now now2 st) CtxRestore = 1)"
proof -
  define ia where "ia = drop (length (trace st)) (trace s)"
  have ia: "\<forall>x \<in> set ia. \<exists>q. x = OnInitScene q"
    using sceneResolution_inits[OF assms] by (simp add: ia_def)
  then have cia: "count_list ia CtxSave = 0" "count_list ia CtxRestore = 0"
    by (auto simp: count_list_0_iff)
  have abort: "renderPass h r s = (Inl e, st')
            \<and> count_list (frame_events h now now2 st) CtxSave = 1
            \<and> count_list (frame_events h now now2 st) CtxRestore = 0
            \<and> (\<forall>d. RequestAnimFrame d \<notin> set (frame_events h now now2 st))
            \<and> currentScene st' = currentScene st \<and> handler st' = handler st"
    if f: "frame h now now2 st = (Inl e, st')" for e st'
  proof -
    from f assms have ren: "renderPass h r s = (Inl e, st')"
      by (auto simp: frame_Inl)
    from renderPass_Inl_trace[OF ren] obtain evs where
      evs: "trace st' = trace s @ CtxSave # evs"
        "set evs \<subseteq> {OnBeforeRenderScene r, OnRenderGame, OnRenderScene r,
                     IntervalRenderer r (the (interval (heap s r)))}"
      by (auto split: if_splits)
    then have cev: "count_list evs CtxSave = 0" "count_list evs CtxRestore = 0"
      by (auto simp: count_list_0_iff)
    have E: "frame_events h now now2 st = ia @ CtxSave # evs"
      using frame_events_split[OF assms ren] evs(1) by (simp add: ia_def)
    have flds: "currentScene st' = currentScene st \<and> handler st' = handler st"
      using sceneResolution_fields[OF assms] renderPass_fields[OF ren] by simp
    show ?thesis
      using ren flds ia evs(2) cia cev unfolding E by auto
  qed
  have ok: "count_list (frame_events h now now2 st) CtxSave = 1
            \<and> count_list (frame_events h now now2 st) CtxRestore = 1"
    if f: "frame h now now2 st = (Inr (), st')" for st'
  proof -
    from f assms obtain s2 where ren: "renderPass h r s = (Inr (), s2)"
      by (auto simp: frame_Inr)
    show ?thesis
      using frame_events_split[OF assms ren] renderPass_Inr_trace[OF ren] cia
      by (auto simp: ia_def)
  qed
  show ?thesis using abort ok by blast
qed

text \<open>A step whose \<open>onRenderScene\<close> throws, and a step that completes.\<close>

theorem render_exception_skips_restore_witness:
  "sceneResolution throwing_hooks playing = (Inr 0, playing)
   \<and> frame throwing_hooks 105 110 playing =
        (Inl (Thrown ''render failed''), snd (frame throwing_hooks 105 110 playing))
   \<and> count_list (frame_events throwing_hooks 105 110 playing) CtxSave = 1
   \<and> count_list (frame_events throwing_hooks 105 110 playing) CtxRestore = 0
   \<and> sceneResolution demo_hooks playing = (Inr 0, playing)
   \<and> frame demo_hooks 105 110 playing = (Inr (), snd (frame demo_hooks 105 110 playing))
   \<and> count_list (frame_events demo_hooks 105 110 playing) CtxRestore = 1"
proof -
  have h1: "sceneResolution throwing_hooks playing = (Inr 0, playing)"
    by (simp add: frame_defs demo_defs)
  have h2: "sceneResolution demo_hooks playing = (Inr 0, playing)"
    by (simp add: frame_defs demo_defs)
  have f1: "frame throwing_hooks 105 110 playing =
        (Inl (Thrown ''render failed''), snd (frame throwing_hooks 105 110 playing))"
    by (simp add: frame_defs demo_defs)
  have f2: "frame demo_hooks 105 110 playing = (Inr (), snd (frame demo_hooks 105 110 playing))"
    by (simp add: frame_defs demo_defs)
  from render_exception_skips_restore[OF h1, of 105 110] f1
  have a: "count_list (frame_events throwing_hooks 105 110 playing) CtxSave = 1
   \<and> count_list (frame_events throwing_hooks 105 110 playing) CtxRestore = 0"
    by blast
  from render_exception_skips_restore[OF h2, of 105 110] f2
  have b: "count_list (frame_events demo_hooks 105 110 playing) CtxRestore = 1"
    by blast
  show ?thesis using h1 h2 f1 f2 a b by blast
qed

text \<open>
  A scene whose \<open>onRenderScene\<close> throws: the step ends with that exception after
  \<open>save\<close>, \<open>onBeforeRenderScene\<close>, the game render hook and \<open>onRenderScene\<close>; no
  \<open>restore\<close> follows.
\<close>

theorem render_exception_leaves_save_open:
  "fst (frame throwing_hooks 105 110 playing) = Inl (Thrown ''render failed'')
   \<and> frame_events throwing_hooks 105 110 playing =
        [CtxSave, OnBeforeRenderScene 0, OnRenderGame, OnRenderScene 0]
   \<and> CtxRestore \<notin> set (frame_events throwing_hooks 105 110 playing)"
  by (simp add: frame_defs demo_defs)

subsection \<open>The delay passed to the scheduler\<close>

text \<open>
  Claim C7, as the code has it. A step that completes while not paused ends with one call
  \<open>requestAnimFrame(GameHandler.start, frameOffset)\<close>, where \<open>frameOffset\<close> is
  \<open>FPSMS\<close> minus the time the step took, truncated to a 32-bit integer. The value is not
  clamped: it is \<open>16 - elapsed\<close> for a step of at most 16 ms, \<open>0\<close> for 17 ms, and the
  negative number \<open>17 - elapsed\<close> for a step of 18 ms or more (up to \<open>2^31\<close> ms).
\<close>

theorem frame_schedules_offset:
  assumes "frame h now now2 st = (Inr (), st')" and "\<not> paused (handler st)"
  shows "(\<exists>evs. frame_events h now now2 st = evs @ [RequestAnimFrame (frameOffset now now2)]
               \<and> (\<forall>d. RequestAnimFrame d \<notin> set evs))
       \<and> (0 \<le> now2 - now \<and> now2 - now \<le> 16 \<longrightarrow> frameOffset now now2 = 16 - (now2 - now))
       \<and> (now2 - now = 17 \<longrightarrow> frameOffset now now2 = 0)
       \<and> (18 \<le> now2 - now \<and> now2 - now \<le> 2 ^ 31 \<longrightarrow>
            frameOffset now now2 = 17 - (now2 - now) \<and> frameOffset now now2 < 0)"
proof -
  from assms obtain r s1 s2 where
    res: "sceneResolution h st = (Inr r, s1)" and ren: "renderPass h r s1 = (Inr (), s2)"
    by (auto simp: frame_Inr)
  obtain ia where ia: "trace s1 = trace st @ ia" "\<forall>x \<in> set ia. \<exists>q. x = OnInitScene q"
    using sceneResolution_trace[OF res] by blast
  obtain ib where ib: "trace s2 = trace s1 @ ib" "\<forall>d. RequestAnimFrame d \<notin> set ib"
    using renderPass_Inr_trace[OF ren] by (cases "intervalDone (heap s1 r)") auto
  have ev: "frame_events h now now2 st = (ia @ ib) @ [RequestAnimFrame (frameOffset now now2)]"
    using frame_completed_events[OF res ren] assms(2) ia(1) ib(1) by simp
  have "\<forall>d. RequestAnimFrame d \<notin> set (ia @ ib)"
    using ia(2) ib(2) by auto
  with ev have first: "\<exists>evs. frame_events h now now2 st = evs @ [RequestAnimFrame (frameOffset now now2)]
               \<and> (\<forall>d. RequestAnimFrame d \<notin> set evs)"
    by blast
  have slow: "18 \<le> now2 - now \<and> now2 - now \<le> 2 ^ 31 \<longrightarrow>
            frameOffset now now2 = 17 - (now2 - now) \<and> frameOffset now now2 < 0"
  proof (intro impI, elim conjE)
    assume a: "18 \<le> now2 - now" "now2 - now \<le> 2 ^ 31"
    from frameOffset_slow[OF a] a(1)
    show "frameOffset now now2 = 17 - (now2 - now) \<and> frameOffset now now2 < 0" by simp
  qed
  from first frameOffset_fast frameOffset_17 slow
  show ?thesis by blast
qed

text \<open>Steps of 5 ms, 17 ms and 30 ms.\<close>

theorem frame_schedules_offset_witness:
  "frame demo_hooks 105 110 playing = (Inr (), snd (frame demo_hooks 105 110 playing))
   \<and> \<not> paused (handler playing)
   \<and> frameOffset 105 110 = 11
   \<and> frameOffset 105 122 = 0
   \<and> frameOffset 105 135 = - 13
   \<and> last (frame_events demo_hooks 105 135 playing) = RequestAnimFrame (- 13)"
proof -
  have f1: "frame demo_hooks 105 110 playing = (Inr (), snd (frame demo_hooks 105 110 playing))"
    by (simp add: frame_defs demo_defs)
  have f2: "frame demo_hooks 105 122 playing = (Inr (), snd (frame demo_hooks 105 122 playing))"
    by (simp add: frame_defs demo_defs)
  have f3: "frame demo_hooks 105 135 playing = (Inr (), snd (frame demo_hooks 105 135 playing))"
    by (simp add: frame_defs demo_defs)
  have np: "\<not> paused (handler playing)"
    by (simp add: demo_defs)
  from frame_schedules_offset[OF f1 np] have a: "frameOffset 105 110 = 11" by simp
  from frame_schedules_offset[OF f2 np] have b: "frameOffset 105 122 = 0" by simp
  from frame_schedules_offset[OF f3 np]
  have c: "frameOffset 105 135 = - 13
     \<and> (\<exists>evs. frame_events demo_hooks 105 135 playing = evs @ [RequestAnimFrame (frameOffset 105 135)])"
    by auto
  then have d: "last (frame_events demo_hooks 105 135 playing) = RequestAnimFrame (- 13)"
    by auto
  show ?thesis using f1 np a b c d by blast
qed

text \<open>A step that takes 30 ms while not paused passes the delay \<open>-13\<close>.\<close>

theorem slow_frame_negative_delay:
  "\<not> paused (handler playing)
   \<and> fst (frame demo_hooks 105 135 playing) = Inr ()
   \<and> frame_events demo_hooks 105 135 playing =
        [CtxSave, OnBeforeRenderScene 0, OnRenderGame, OnRenderScene 0, CtxRestore,
         RequestAnimFrame (- 13)]"
proof -
  have "frameOffset 105 135 = 17 - (135 - 105)"
    by (rule frameOffset_slow) simp_all
  then show ?thesis
    by (simp add: frame_defs demo_defs)
qed

subsection \<open>Effect values\<close>




subsection \<open>Missing scenes\<close>

text \<open>
  Claim C9, as the code has it. There is no check of the configuration. A first step with
  an empty \<open>scenes\<close> array reads \<open>scenes[0]\<close>, which is \<open>undefined\<close>, and ends with the
  runtime's TypeError for the call of \<open>onInitScene\<close> on it, having only set
  \<open>sceneIndex = 0\<close>. A game-over step with \<open>endScene\<close> null ends with the TypeError for
  the call on \<open>null\<close>, having only set \<open>sceneIndex = -1\<close>. Nothing is rendered or scheduled
  in either.
\<close>

theorem missing_scene_type_error:
  "(currentScene st = None \<and> scenes st = [] \<longrightarrow>
       scene_at (scenes st) 0 = Undefined
       \<and> frame h now now2 st = (Inl (TypeError Undefined), st\<lparr>sceneIndex := 0\<rparr>))
   \<and> (currentScene st \<noteq> None \<and> isGameOver h (game st) \<and> endScene st = None \<longrightarrow>
       frame h now now2 st = (Inl (TypeError Null), st\<lparr>sceneIndex := - 1\<rparr>))"
  by (auto simp: frame_def sceneResolution_def resolveScene_def Let_def scene_at_def field_ref_def
        callOnInitScene_def)

text \<open>A game without scenes, and a game over without end scene.\<close>

theorem missing_scene_type_error_witness:
  "currentScene no_scenes = None \<and> scenes no_scenes = []
   \<and> frame demo_hooks 105 110 no_scenes = (Inl (TypeError Undefined), no_scenes\<lparr>sceneIndex := 0\<rparr>)
   \<and> currentScene no_end \<noteq> None \<and> isGameOver over_hooks (game no_end) \<and> endScene no_end = None
   \<and> frame over_hooks 105 110 no_end = (Inl (TypeError Null), no_end\<lparr>sceneIndex := - 1\<rparr>)"
proof -
  have c1: "currentScene no_scenes = None" "scenes no_scenes = []"
    by (simp_all add: demo_defs)
  have c2: "currentScene no_end \<noteq> None" "isGameOver over_hooks (game no_end)" "endScene no_end = None"
    by (simp_all add: demo_defs)
  from missing_scene_type_error[of no_scenes demo_hooks 105 110] c1
  have a: "frame demo_hooks 105 110 no_scenes = (Inl (TypeError Undefined), no_scenes\<lparr>sceneIndex := 0\<rparr>)"
    by blast
  from missing_scene_type_error[of no_end over_hooks 105 110] c2
  have b: "frame over_hooks 105 110 no_end = (Inl (TypeError Null), no_end\<lparr>sceneIndex := - 1\<rparr>)"
    by blast
  show ?thesis using c1 c2 a b by blast
qed

text \<open>
  The first step of a game without scenes: the read of \<open>scenes[0]\<close> past the end of the
  array gives \<open>undefined\<close>, and the step ends with the TypeError of dereferencing it.
\<close>

theorem empty_scenes_type_error:
  "scenes no_scenes = [] \<and> currentScene no_scenes = None
   \<and> scene_at (scenes no_scenes) 0 = Undefined
   \<and> frame demo_hooks 105 110 no_scenes = (Inl (TypeError Undefined), no_scenes\<lparr>sceneIndex := 0\<rparr>)"
  by (simp add: frame_defs demo_defs)

subsection \<open>Game over on consecutive steps\<close>

text \<open>
  Claim C10. Let \<open>isGameOver()\<close> be true in a step with an active scene and again in the
  step after it, and let the end scene own an interval. Then each of the two steps begins
  by calling \<open>endScene.onInitScene()\<close> and renders through the interval renderer, which
  receives the interval with \<open>framecounter = 0\<close> and \<open>complete = false\<close>: whatever the
  first step left in the interval (a \<open>complete\<close> flag set by the renderer included) is
  reset at the start of the second.
\<close>

theorem game_over_resets_end_interval:
  assumes "currentScene st = Some r" and "isGameOver h (game st)" and "endScene st = Some e"
    and "interval (heap st e) = Some iv"
    and "frame h now now2 st = (Inr (), s1)" and "isGameOver h (game s1)"
  shows "(\<exists>evs. frame_events h now now2 st =
            OnInitScene e # CtxSave # OnRenderGame
              # IntervalRenderer e (iv\<lparr>framecounter := 0, complete := False\<rparr>) # evs)
       \<and> (\<exists>iv1. interval (heap s1 e) = Some iv1
            \<and> (\<exists>s. resolveScene h s1 = (Inr e, s)
                  \<and> interval (heap s e) = Some (iv1\<lparr>framecounter := 0, complete := False\<rparr>))
            \<and> (\<forall>s2. frame h t t2 s1 = (Inr (), s2) \<longrightarrow>
                 (\<exists>evs. frame_events h t t2 s1 =
                    OnInitScene e # CtxSave # OnRenderGame
                      # IntervalRenderer e (iv1\<lparr>framecounter := 0, complete := False\<rparr>) # evs)))"
proof -
  note first = game_over_interval_step[OF assms(1-5)]
  then obtain iv1 where iv1: "interval (heap s1 e) = Some iv1" by blast
  from first have cur: "currentScene s1 = Some e" and en: "endScene s1 = Some e" by simp_all
  have rs: "\<exists>s. resolveScene h s1 = (Inr e, s)
                  \<and> interval (heap s e) = Some (iv1\<lparr>framecounter := 0, complete := False\<rparr>)"
    unfolding resolveScene_game_over[OF cur assms(6) en]
    using iv1 by (simp add: interval_onInitScene reset_def)
  have second: "\<exists>evs. frame_events h t t2 s1 =
                    OnInitScene e # CtxSave # OnRenderGame
                      # IntervalRenderer e (iv1\<lparr>framecounter := 0, complete := False\<rparr>) # evs"
    if "frame h t t2 s1 = (Inr (), s2)" for s2
    using game_over_interval_step[OF cur assms(6) en iv1 that] by blast
  show ?thesis using first iv1 rs second by blast
qed

text \<open>An interval renderer that completes the interval at once: the flag is set after
  the first step and cleared again when the second step renders.\<close>

theorem game_over_resets_end_interval_witness:
  "currentScene playing = Some 0 \<and> isGameOver instant_hooks (game playing)
   \<and> endScene playing = Some 3 \<and> interval (heap playing 3) = Some banner
   \<and> frame instant_hooks 105 110 playing = (Inr (), snd (frame instant_hooks 105 110 playing))
   \<and> isGameOver instant_hooks (game (snd (frame instant_hooks 105 110 playing)))
   \<and> interval (heap (snd (frame instant_hooks 105 110 playing)) 3) = Some (banner\<lparr>complete := True\<rparr>)
   \<and> frame instant_hooks 120 125 (snd (frame instant_hooks 105 110 playing))
       = (Inr (), snd (frame instant_hooks 120 125 (snd (frame instant_hooks 105 110 playing))))
   \<and> frame_events instant_hooks 120 125 (snd (frame instant_hooks 105 110 playing)) ! 3
       = IntervalRenderer 3 banner"
proof -
  define s1 where "s1 = snd (frame instant_hooks 105 110 playing)"
  have c: "currentScene playing = Some 0" "isGameOver instant_hooks (game playing)"
    "endScene playing = Some 3" "interval (heap playing 3) = Some banner"
    by (simp_all add: demo_defs)
  have f1: "frame instant_hooks 105 110 playing = (Inr (), s1)"
    unfolding s1_def by (simp add: frame_defs demo_defs)
  have g1: "isGameOver instant_hooks (game s1)"
    by (simp add: demo_defs)
  have i1: "interval (heap s1 3) = Some (banner\<lparr>complete := True\<rparr>)"
    unfolding s1_def by (simp add: frame_defs demo_defs)
  have f2: "frame instant_hooks 120 125 s1 = (Inr (), snd (frame instant_hooks 120 125 s1))"
    unfolding s1_def by (simp add: frame_defs demo_defs)
  from game_over_resets_end_interval[OF c f1 g1, of 120 125] i1 f2
  have "\<exists>evs. frame_events instant_hooks 120 125 s1 =
      OnInitScene 3 # CtxSave # OnRenderGame
        # IntervalRenderer 3 (banner\<lparr>complete := True, framecounter := 0, complete := False\<rparr>) # evs"
    by force
  then have e: "frame_events instant_hooks 120 125 s1 ! 3 = IntervalRenderer 3 banner"
    by (auto simp: banner_def)
  show ?thesis using c f1 g1 i1 f2 e unfolding s1_def by blast
qed

end
